theory Spec2Isabelle
  imports Main "HOL-Library.AList" "HOL-Library.Char_ord" "HOL-Library.List_Lexorder"
begin

section \<open>Python text primitives\<close>

text \<open>
  A Python \<open>str\<close> is modelled as a \<open>string\<close> whose characters are code points
  below 256 (the Latin-1 range); larger code points are outside the model. The character
  classes below are those of CPython for that range.
\<close>

definition code :: "char \<Rightarrow> nat" where
  "code c = of_char c"

text \<open>\<open>str.isspace\<close> for one character: the characters \<open>str.strip()\<close> and
  \<open>str.split()\<close> treat as whitespace.\<close>

definition is_space :: "char \<Rightarrow> bool" where
  "is_space c = (code c \<in> {9, 10, 11, 12, 13, 28, 29, 30, 31, 32, 133, 160})"

text \<open>The line boundaries of \<open>str.splitlines\<close>.\<close>

definition is_linebreak :: "char \<Rightarrow> bool" where
  "is_linebreak c = (code c \<in> {10, 11, 12, 13, 28, 29, 30, 133})"

text \<open>\<open>str.lower\<close>: the ASCII capitals and the Latin-1 capitals move up by 32.\<close>

definition lower_char :: "char \<Rightarrow> char" where
  "lower_char c =
     (let n = code c in
      if (65 \<le> n \<and> n \<le> 90) \<or> (192 \<le> n \<and> n \<le> 222 \<and> n \<noteq> 215)
      then char_of (n + 32) else c)"

definition lower :: "string \<Rightarrow> string" where
  "lower s = map lower_char s"

text \<open>\<open>str.strip()\<close> with no argument, and \<open>str.strip(chars)\<close>.\<close>

definition strip_chars :: "(char \<Rightarrow> bool) \<Rightarrow> string \<Rightarrow> string" where
  "strip_chars p s = rev (dropWhile p (rev (dropWhile p s)))"

definition strip :: "string \<Rightarrow> string" where
  "strip s = strip_chars is_space s"

text \<open>\<open>str.split()\<close> with no argument: the maximal runs of non-whitespace.\<close>

fun split_ws :: "string \<Rightarrow> string \<Rightarrow> string list" where
  "split_ws cur [] = (if cur = [] then [] else [cur])"
| "split_ws cur (c # cs) =
     (if is_space c then (if cur = [] then split_ws [] cs else cur # split_ws [] cs)
      else split_ws (cur @ [c]) cs)"

definition split :: "string \<Rightarrow> string list" where
  "split s = split_ws [] s"

text \<open>\<open>str.splitlines()\<close>: a carriage return followed by a line feed is one boundary;
  a final boundary does not open an empty last line.\<close>

fun splitlines_from :: "string \<Rightarrow> string \<Rightarrow> string list" where
  "splitlines_from cur [] = (if cur = [] then [] else [cur])"
| "splitlines_from cur (c # cs) =
     (if is_linebreak c then
        (case cs of
           d # ds \<Rightarrow>
             if code c = 13 \<and> code d = 10 then cur # splitlines_from [] ds
             else cur # splitlines_from [] cs
         | [] \<Rightarrow> [cur])
      else splitlines_from (cur @ [c]) cs)"

definition splitlines :: "string \<Rightarrow> string list" where
  "splitlines s = splitlines_from [] s"

text \<open>\<open>sub in s\<close> for strings, and the text before the first occurrence of \<open>sub\<close>
  (\<open>s.split(sub, 1)[0]\<close>).\<close>

fun starts_with :: "string \<Rightarrow> string \<Rightarrow> bool" where
  "starts_with [] s = True"
| "starts_with (p # ps) [] = False"
| "starts_with (p # ps) (c # cs) = (p = c \<and> starts_with ps cs)"

fun contains :: "string \<Rightarrow> string \<Rightarrow> bool" where
  "contains sub [] = (sub = [])"
| "contains sub (c # cs) = (starts_with sub (c # cs) \<or> contains sub cs)"

fun before_first :: "string \<Rightarrow> string \<Rightarrow> string" where
  "before_first sub [] = []"
| "before_first sub (c # cs) =
     (if starts_with sub (c # cs) then [] else c # before_first sub cs)"

text \<open>\<open>sep.join(parts)\<close>.\<close>

fun join :: "string \<Rightarrow> string list \<Rightarrow> string" where
  "join sep [] = []"
| "join sep [x] = x"
| "join sep (x # y # ys) = x @ sep @ join sep (y # ys)"

section \<open>JSON values as Python objects\<close>

text \<open>
  The values \<open>json.loads\<close> produces: \<open>None\<close>, booleans, integers, strings, lists and
  dictionaries with string keys, a dictionary being an association list in insertion
  order. Floating-point numbers are outside the model.
\<close>

datatype json =
    JNull
  | JBool bool
  | JInt int
  | JStr string
  | JList "json list"
  | JDict "(string \<times> json) list"

type_synonym step = "(string \<times> json) list"

text \<open>Truthiness, as \<open>if x\<close> and \<open>x or y\<close> test it.\<close>

fun truthy :: "json \<Rightarrow> bool" where
  "truthy JNull = False"
| "truthy (JBool b) = b"
| "truthy (JInt i) = (i \<noteq> 0)"
| "truthy (JStr s) = (s \<noteq> [])"
| "truthy (JList xs) = (xs \<noteq> [])"
| "truthy (JDict kvs) = (kvs \<noteq> [])"

definition py_or :: "json \<Rightarrow> json \<Rightarrow> json" where
  "py_or a b = (if truthy a then a else b)"

text \<open>\<open>d.get(key)\<close>: \<open>None\<close> when the key is absent.\<close>

definition dict_get :: "step \<Rightarrow> string \<Rightarrow> json" where
  "dict_get d key = (case map_of d key of None \<Rightarrow> JNull | Some v \<Rightarrow> v)"

subsection \<open>\<open>str\<close> and \<open>repr\<close>\<close>

definition digit_char :: "nat \<Rightarrow> char" where
  "digit_char d = ''0123456789abcdef'' ! (d mod 16)"

function str_nat :: "nat \<Rightarrow> string" where
  "str_nat n = (if n < 10 then [digit_char n] else str_nat (n div 10) @ [digit_char (n mod 10)])"
  by pat_completeness auto
termination
  by (relation "measure (\<lambda>n. n)") auto

definition str_int :: "int \<Rightarrow> string" where
  "str_int i = (if i < 0 then CHR ''-'' # str_nat (nat (- i)) else str_nat (nat i))"

text \<open>\<open>repr\<close> of a string: single quotes unless the text has a single quote and no
  double quote; the quote and the backslash are escaped, tab, line feed and carriage
  return are written symbolically, every other non-printable character as \<open>\xNN\<close>.\<close>

definition printable :: "char \<Rightarrow> bool" where
  "printable c =
     (let n = code c in 32 \<le> n \<and> n \<noteq> 127 \<and> \<not> (128 \<le> n \<and> n \<le> 160) \<and> n \<noteq> 173)"

definition repr_char :: "char \<Rightarrow> char \<Rightarrow> string" where
  "repr_char quote c =
     (if c = quote \<or> c = CHR 0x5C then [CHR 0x5C, c]
      else if code c = 9 then [CHR 0x5C, CHR ''t'']
      else if code c = 10 then [CHR 0x5C, CHR ''n'']
      else if code c = 13 then [CHR 0x5C, CHR ''r'']
      else if printable c then [c]
      else [CHR 0x5C, CHR ''x'', digit_char (code c div 16), digit_char (code c mod 16)])"

definition repr_str :: "string \<Rightarrow> string" where
  "repr_str s =
     (let quote = (if CHR 0x27 \<in> set s \<and> CHR 0x22 \<notin> set s then CHR 0x22 else CHR 0x27)
      in quote # concat (map (repr_char quote) s) @ [quote])"

fun py_repr :: "json \<Rightarrow> string" where
  "py_repr JNull = ''None''"
| "py_repr (JBool b) = (if b then ''True'' else ''False'')"
| "py_repr (JInt i) = str_int i"
| "py_repr (JStr s) = repr_str s"
| "py_repr (JList xs) = ''['' @ join '', '' (map py_repr xs) @ '']''"
| "py_repr (JDict kvs) =
     ''{'' @ join '', '' (map (\<lambda>(k, v). repr_str k @ '': '' @ py_repr v) kvs) @ ''}''"

text \<open>\<open>str(x)\<close>: a string is itself, everything else prints as its \<open>repr\<close>.\<close>

definition py_str :: "json \<Rightarrow> string" where
  "py_str v = (case v of JStr s \<Rightarrow> s | _ \<Rightarrow> py_repr v)"

section \<open>Errors\<close>

text \<open>One constructor for each \<open>raise\<close> of the module, and \<open>IndexError\<close> for an
  index out of range.\<close>

datatype error =
    InstanceDirNotFound
  | TrajectoryFileNotFound
  | JSONLLineError nat
  | NoJSONObjects
  | UnexpectedFormat
  | UnsupportedData
  | StepNotObject nat
  | IndexError

section \<open>Text primitives of the module\<close>

text \<open>\<open>_action_header\<close>: the text before the payload flag, else the first line.\<close>

definition action_header :: "string \<Rightarrow> error + string" where
  "action_header action_text =
     (if action_text = [] then Inr []
      else if contains ''--file_text'' action_text
        then Inr (before_first ''--file_text'' action_text)
      else (case splitlines action_text of
              [] \<Rightarrow> Inl IndexError
            | first_line # _ \<Rightarrow> Inr first_line))"

definition creation_markers :: "string list" where
  "creation_markers =
     [''str_replace_editor create'', ''apply_patch'', ''cat <<'', ''cat >'',
      ''tee '', ''printf '', ''echo '', ''touch '']"

definition is_creation_action :: "string \<Rightarrow> bool" where
  "is_creation_action action_text =
     (let lowered = lower action_text
      in list_ex (\<lambda>marker. contains marker lowered) creation_markers)"

definition FILE_KEYWORDS :: "string list" where
  "FILE_KEYWORDS =
     [''repro'', ''reproduce'', ''reproduction'', ''debug'', ''test'', ''tests'',
      ''pytest'', ''unit'', ''minimal'']"

definition THOUGHT_KEYWORDS :: "string list" where
  "THOUGHT_KEYWORDS =
     [''repro'', ''reproduce'', ''reproduction'', ''debug'', ''test case'',
      ''test to reproduce'', ''script to reproduce'', ''minimal example'',
      ''minimal repro'', ''unit test'', ''pytest'']"

definition has_keyword :: "string \<Rightarrow> string list \<Rightarrow> bool" where
  "has_keyword text keywords =
     (let lowered = lower text in list_ex (\<lambda>key. contains key lowered) keywords)"

subsection \<open>Filename extraction\<close>

text \<open>
  \<open>re.findall\<close> for a pattern that is one group: the matches from left to right, the
  scan resuming where a match ended. The matcher gives the match that starts at the head
  of the text, if there is one; both patterns below match at least two characters.
\<close>

fun findall :: "(string \<Rightarrow> string option) \<Rightarrow> string \<Rightarrow> string list" where
  "findall m [] = []"
| "findall m (c # cs) =
     (case m (c # cs) of
        None \<Rightarrow> findall m cs
      | Some tok \<Rightarrow> tok # findall m (drop (length tok - 1) cs))"

text \<open>
  The first pattern, as the raw string literal spells it, is a slash followed by one or
  more characters outside the class of backslash, the letter \<open>s\<close>, single quote, double
  quote and backquote.
\<close>

definition excluded1 :: "char \<Rightarrow> bool" where
  "excluded1 c = (c \<in> {CHR 0x5C, CHR ''s'', CHR 0x27, CHR 0x22, CHR 0x60})"

definition match1 :: "string \<Rightarrow> string option" where
  "match1 s =
     (case s of
        [] \<Rightarrow> None
      | c # cs \<Rightarrow>
          if c = CHR ''/'' \<and> takeWhile (\<lambda>x. \<not> excluded1 x) cs \<noteq> []
          then Some (c # takeWhile (\<lambda>x. \<not> excluded1 x) cs) else None)"

text \<open>
  The second pattern, as the raw string literal spells it: one or more characters of
  \<open>[A-Za-z0-9_.\/-]\<close> (the class holds the backslash), then a backslash, then any
  character but a line feed, then one or more characters of \<open>[A-Za-z0-9_.-]\<close>. The
  first repetition is greedy and gives characters back one at a time until the rest
  matches.
\<close>

definition is_alnum_ascii :: "char \<Rightarrow> bool" where
  "is_alnum_ascii c =
     (let n = code c in (48 \<le> n \<and> n \<le> 57) \<or> (65 \<le> n \<and> n \<le> 90) \<or> (97 \<le> n \<and> n \<le> 122))"

definition class_head :: "char \<Rightarrow> bool" where
  "class_head c =
     (is_alnum_ascii c \<or> c \<in> {CHR ''_'', CHR ''.'', CHR 0x5C, CHR ''/'', CHR ''-''})"

definition class_ext :: "char \<Rightarrow> bool" where
  "class_ext c = (is_alnum_ascii c \<or> c \<in> {CHR ''_'', CHR ''.'', CHR ''-''})"

definition tail2 :: "string \<Rightarrow> nat option" where
  "tail2 rest =
     (case rest of
        b # d # rest' \<Rightarrow>
          if b = CHR 0x5C \<and> code d \<noteq> 10 \<and> takeWhile class_ext rest' \<noteq> []
          then Some (2 + length (takeWhile class_ext rest')) else None
      | _ \<Rightarrow> None)"

fun backtrack2 :: "nat \<Rightarrow> string \<Rightarrow> string option" where
  "backtrack2 0 s = None"
| "backtrack2 (Suc k) s =
     (case tail2 (drop (Suc k) s) of
        Some n \<Rightarrow> Some (take (Suc k + n) s)
      | None \<Rightarrow> backtrack2 k s)"

definition match2 :: "string \<Rightarrow> string option" where
  "match2 s = backtrack2 (length (takeWhile class_head s)) s"

definition is_quote :: "char \<Rightarrow> bool" where
  "is_quote c = (c = CHR 0x27 \<or> c = CHR 0x22)"

fun unique_from :: "string set \<Rightarrow> string list \<Rightarrow> string list" where
  "unique_from seen [] = []"
| "unique_from seen (path # paths) =
     (let cleaned = strip_chars is_quote path
      in if cleaned \<notin> seen then cleaned # unique_from (insert cleaned seen) paths
         else unique_from seen paths)"

definition extract_filenames :: "string \<Rightarrow> string list" where
  "extract_filenames text = unique_from {} (findall match1 text @ findall match2 text)"

section \<open>Step accessors\<close>

text \<open>The loop \<open>for key in keys: if key in step and step[key]: return str(step[key])\<close>
  of both accessors.\<close>

fun first_set_field :: "string list \<Rightarrow> step \<Rightarrow> json option" where
  "first_set_field [] step = None"
| "first_set_field (key # keys) step =
     (case map_of step key of
        Some v \<Rightarrow> if truthy v then Some v else first_set_field keys step
      | None \<Rightarrow> first_set_field keys step)"

text \<open>\<open>_get_tool_name\<close>: \<open>header.split()[0]\<close> raises \<open>IndexError\<close> when the header
  is non-empty and \<open>split\<close> finds no token.\<close>

definition get_tool_name :: "step \<Rightarrow> error + string" where
  "get_tool_name step =
     (case first_set_field [''tool'', ''tool_name'', ''name''] step of
        Some v \<Rightarrow> Inr (py_str v)
      | None \<Rightarrow>
          (let action_text =
                 py_str (py_or (py_or (dict_get step ''action'') (dict_get step ''command''))
                               (JStr []))
           in case action_header action_text of
                Inl e \<Rightarrow> Inl e
              | Inr header \<Rightarrow>
                  if header \<noteq> [] then
                    (case split header of [] \<Rightarrow> Inl IndexError | tok # _ \<Rightarrow> Inr tok)
                  else Inr []))"

definition get_command_text :: "step \<Rightarrow> error + string" where
  "get_command_text step =
     (case first_set_field [''command'', ''args'', ''input''] step of
        Some v \<Rightarrow> Inr (py_str v)
      | None \<Rightarrow> action_header (py_str (py_or (dict_get step ''action'') (JStr []))))"

text \<open>\<open>_is_reproduction_step\<close>; \<open>raw_action\<close> is its first local variable,
  \<open>str(step.get("action") or step.get("tool") or step.get("command") or "")\<close>.\<close>

definition raw_action :: "step \<Rightarrow> string" where
  "raw_action step =
     py_str (py_or (py_or (py_or (dict_get step ''action'') (dict_get step ''tool''))
                          (dict_get step ''command''))
                   (JStr []))"

definition is_reproduction_step :: "step \<Rightarrow> error + bool" where
  "is_reproduction_step step =
     (case action_header (raw_action step) of
        Inl e \<Rightarrow> Inl e
      | Inr header \<Rightarrow>
          if \<not> is_creation_action header then Inr False
          else
            (let filenames = extract_filenames header in
             if filenames \<noteq> [] \<and> has_keyword (join '' '' filenames) FILE_KEYWORDS
               then Inr True
             else if has_keyword header FILE_KEYWORDS then Inr True
             else
               (let thought_text = py_str (py_or (dict_get step ''thought'') (JStr []))
                in if thought_text \<noteq> [] \<and> has_keyword thought_text THOUGHT_KEYWORDS
                     then Inr True
                   else Inr False)))"

section \<open>The shell-verb pattern of the search classifier\<close>

text \<open>
  \<open>\w\<close> of a \<open>str\<close> pattern on the modelled range: the alphanumeric characters and the
  underscore.
\<close>

definition is_word_char :: "char \<Rightarrow> bool" where
  "is_word_char c =
     (let n = code c in
        (48 \<le> n \<and> n \<le> 57) \<or> (65 \<le> n \<and> n \<le> 90) \<or> (97 \<le> n \<and> n \<le> 122) \<or> n = 95
        \<or> n \<in> {170, 178, 179, 181, 185, 186, 188, 189, 190}
        \<or> (192 \<le> n \<and> n \<le> 214) \<or> (216 \<le> n \<and> n \<le> 246) \<or> (248 \<le> n \<and> n \<le> 255))"

definition shell_verbs :: "string list" where
  "shell_verbs =
     [''find'', ''grep'', ''rg'', ''fd'', ''ls'', ''cd'', ''cat'', ''tree'', ''ag'', ''pwd'']"

text \<open>\<open>\b\<close> between the character before the position (none at the start) and the
  text from the position on: exactly one side is a word character.\<close>

definition word_opt :: "char option \<Rightarrow> bool" where
  "word_opt c = (case c of None \<Rightarrow> False | Some x \<Rightarrow> is_word_char x)"

definition boundary :: "char option \<Rightarrow> string \<Rightarrow> bool" where
  "boundary prev rest =
     (word_opt prev \<noteq> word_opt (case rest of [] \<Rightarrow> None | c # _ \<Rightarrow> Some c))"

text \<open>The pattern \<open>\b(find|grep|rg|fd|ls|cd|cat|tree|ag|pwd)\b\<close> matched at one
  position, and \<open>search\<close>, which tries every position from left to right.\<close>

definition verb_here :: "char option \<Rightarrow> string \<Rightarrow> bool" where
  "verb_here prev s =
     (boundary prev s \<and>
      list_ex (\<lambda>v. starts_with v s \<and> boundary (Some (last v)) (drop (length v) s))
        shell_verbs)"

fun shell_markers_from :: "char option \<Rightarrow> string \<Rightarrow> bool" where
  "shell_markers_from prev [] = verb_here prev []"
| "shell_markers_from prev (c # cs) =
     (verb_here prev (c # cs) \<or> shell_markers_from (Some c) cs)"

definition shell_markers_search :: "string \<Rightarrow> bool" where
  "shell_markers_search s = shell_markers_from None s"

section \<open>The JSON parser\<close>

text \<open>
  \<open>json_loads\<close> models \<open>json.loads\<close> of the standard library on JSON texts whose
  numbers are integers and whose \<open>\u\<close> escapes stay below 256: where it gives
  \<open>Some v\<close> the library returns \<open>v\<close>, and it gives \<open>None\<close> where the library raises
  \<open>JSONDecodeError\<close> and on the texts outside the model (a number with a fraction or an
  exponent, \<open>NaN\<close>, \<open>Infinity\<close>, a larger escape). The recursion is bounded by a
  counter that the top level sets above the length of the text; every nested call uses
  up at least one character.
\<close>

definition is_json_ws :: "char \<Rightarrow> bool" where
  "is_json_ws c = (code c \<in> {9, 10, 13, 32})"

definition skip_ws :: "string \<Rightarrow> string" where
  "skip_ws s = dropWhile is_json_ws s"

definition is_digit :: "char \<Rightarrow> bool" where
  "is_digit c = (48 \<le> code c \<and> code c \<le> 57)"

definition hex_val :: "char \<Rightarrow> nat option" where
  "hex_val c =
     (let n = code c in
      if 48 \<le> n \<and> n \<le> 57 then Some (n - 48)
      else if 65 \<le> n \<and> n \<le> 70 then Some (n - 55)
      else if 97 \<le> n \<and> n \<le> 102 then Some (n - 87)
      else None)"

definition hex4 :: "char \<Rightarrow> char \<Rightarrow> char \<Rightarrow> char \<Rightarrow> char option" where
  "hex4 a b c d =
     (case (hex_val a, hex_val b, hex_val c, hex_val d) of
        (Some x, Some y, Some z, Some u) \<Rightarrow>
          if x = 0 \<and> y = 0 then Some (char_of (16 * z + u)) else None
      | _ \<Rightarrow> None)"

definition unescape :: "char \<Rightarrow> char option" where
  "unescape e =
     (if e = CHR 0x22 \<or> e = CHR 0x5C \<or> e = CHR ''/'' then Some e
      else if e = CHR ''b'' then Some (CHR 0x08)
      else if e = CHR ''f'' then Some (CHR 0x0C)
      else if e = CHR ''n'' then Some (CHR 0x0A)
      else if e = CHR ''r'' then Some (CHR 0x0D)
      else if e = CHR ''t'' then Some (CHR 0x09)
      else None)"

text \<open>The text of a string after its opening quote: the decoded string and what follows
  the closing quote. A raw control character is an error.\<close>

fun scan_string :: "string \<Rightarrow> (string \<times> string) option" where
  "scan_string [] = None"
| "scan_string (c # cs) =
     (if c = CHR 0x22 then Some ([], cs)
      else if c = CHR 0x5C then
        (case cs of
           [] \<Rightarrow> None
         | e # es \<Rightarrow>
             if e = CHR ''u'' then
               (case es of
                  h1 # h2 # h3 # h4 # es' \<Rightarrow>
                    (case hex4 h1 h2 h3 h4 of
                       None \<Rightarrow> None
                     | Some ch \<Rightarrow>
                         (case scan_string es' of
                            None \<Rightarrow> None
                          | Some (str, rest) \<Rightarrow> Some (ch # str, rest)))
                | _ \<Rightarrow> None)
             else
               (case unescape e of
                  None \<Rightarrow> None
                | Some ch \<Rightarrow>
                    (case scan_string es of
                       None \<Rightarrow> None
                     | Some (str, rest) \<Rightarrow> Some (ch # str, rest))))
      else if code c < 32 then None
      else
        (case scan_string cs of
           None \<Rightarrow> None
         | Some (str, rest) \<Rightarrow> Some (c # str, rest)))"

text \<open>A number: an optional minus sign, then \<open>0\<close> or a digit sequence that does not
  start with \<open>0\<close>. A fraction or an exponent behind it makes it a float.\<close>

definition nat_of_digits :: "string \<Rightarrow> nat" where
  "nat_of_digits ds = foldl (\<lambda>acc d. 10 * acc + (code d - 48)) 0 ds"

definition frac_follows :: "string \<Rightarrow> bool" where
  "frac_follows rest =
     (case rest of p # d # _ \<Rightarrow> p = CHR ''.'' \<and> is_digit d | _ \<Rightarrow> False)"

definition exp_follows :: "string \<Rightarrow> bool" where
  "exp_follows rest =
     (case rest of
        e # d # more \<Rightarrow>
          (e = CHR ''e'' \<or> e = CHR ''E'') \<and>
          (is_digit d \<or>
           ((d = CHR ''+'' \<or> d = CHR ''-'') \<and> (case more of [] \<Rightarrow> False | x # _ \<Rightarrow> is_digit x)))
      | _ \<Rightarrow> False)"

definition scan_digits :: "string \<Rightarrow> (nat \<times> string) option" where
  "scan_digits s =
     (case s of
        [] \<Rightarrow> None
      | c # cs \<Rightarrow>
          if c = CHR ''0'' then Some (0, cs)
          else if is_digit c
            then Some (nat_of_digits (takeWhile is_digit s), dropWhile is_digit s)
          else None)"

definition scan_number :: "string \<Rightarrow> (int \<times> string) option" where
  "scan_number s =
     (let negative = (case s of [] \<Rightarrow> False | c # _ \<Rightarrow> c = CHR ''-'') in
      case scan_digits (if negative then tl s else s) of
        None \<Rightarrow> None
      | Some (n, rest) \<Rightarrow>
          if frac_follows rest \<or> exp_follows rest then None
          else Some (if negative then - int n else int n, rest))"

text \<open>\<open>dict(pairs)\<close>: a repeated key keeps its first position and takes the last value.\<close>

definition dict_of :: "(string \<times> json) list \<Rightarrow> (string \<times> json) list" where
  "dict_of pairs = foldl (\<lambda>d (k, v). AList.update k v d) [] pairs"

fun parse_value :: "nat \<Rightarrow> string \<Rightarrow> (json \<times> string) option"
  and parse_items :: "nat \<Rightarrow> string \<Rightarrow> (json list \<times> string) option"
  and parse_pairs :: "nat \<Rightarrow> string \<Rightarrow> ((string \<times> json) list \<times> string) option"
where
  "parse_value 0 s = None"
| "parse_value (Suc n) s =
     (case s of
        [] \<Rightarrow> None
      | c # cs \<Rightarrow>
          if c = CHR 0x22 then
            (case scan_string cs of
               None \<Rightarrow> None
             | Some (str, rest) \<Rightarrow> Some (JStr str, rest))
          else if c = CHR ''{'' then
            (if starts_with ''}'' (skip_ws cs) then Some (JDict [], tl (skip_ws cs))
             else
               (case parse_pairs n (skip_ws cs) of
                  None \<Rightarrow> None
                | Some (pairs, rest) \<Rightarrow> Some (JDict (dict_of pairs), rest)))
          else if c = CHR ''['' then
            (if starts_with '']'' (skip_ws cs) then Some (JList [], tl (skip_ws cs))
             else
               (case parse_items n (skip_ws cs) of
                  None \<Rightarrow> None
                | Some (items, rest) \<Rightarrow> Some (JList items, rest)))
          else if starts_with ''null'' s then Some (JNull, drop 4 s)
          else if starts_with ''true'' s then Some (JBool True, drop 4 s)
          else if starts_with ''false'' s then Some (JBool False, drop 5 s)
          else
            (case scan_number s of
               None \<Rightarrow> None
             | Some (i, rest) \<Rightarrow> Some (JInt i, rest)))"
| "parse_items 0 s = None"
| "parse_items (Suc n) s =
     (case parse_value n s of
        None \<Rightarrow> None
      | Some (v, rest) \<Rightarrow>
          (case skip_ws rest of
             [] \<Rightarrow> None
           | c # rest' \<Rightarrow>
               if c = CHR '']'' then Some ([v], rest')
               else if c = CHR '','' then
                 (case parse_items n (skip_ws rest') of
                    None \<Rightarrow> None
                  | Some (vs, rest'') \<Rightarrow> Some (v # vs, rest''))
               else None))"
| "parse_pairs 0 s = None"
| "parse_pairs (Suc n) s =
     (case s of
        [] \<Rightarrow> None
      | q # cs \<Rightarrow>
          if q \<noteq> CHR 0x22 then None
          else
            (case scan_string cs of
               None \<Rightarrow> None
             | Some (key, rest) \<Rightarrow>
                 (case skip_ws rest of
                    [] \<Rightarrow> None
                  | colon # rest1 \<Rightarrow>
                      if colon \<noteq> CHR '':'' then None
                      else
                        (case parse_value n (skip_ws rest1) of
                           None \<Rightarrow> None
                         | Some (v, rest2) \<Rightarrow>
                             (case skip_ws rest2 of
                                [] \<Rightarrow> None
                              | c # rest3 \<Rightarrow>
                                  if c = CHR ''}'' then Some ([(key, v)], rest3)
                                  else if c = CHR '','' then
                                    (case parse_pairs n (skip_ws rest3) of
                                       None \<Rightarrow> None
                                     | Some (pairs, rest4) \<Rightarrow> Some ((key, v) # pairs, rest4))
                                  else None)))))"

definition json_loads :: "string \<Rightarrow> json option" where
  "json_loads text =
     (case parse_value (Suc (length text)) (skip_ws text) of
        None \<Rightarrow> None
      | Some (v, rest) \<Rightarrow> if skip_ws rest = [] then Some v else None)"

section \<open>The trajectory loader\<close>

text \<open>
  \<open>load_trajectory\<close> takes the decoded text of the file and the parser: \<open>loads text\<close> is
  \<open>Some v\<close> when \<open>json.loads\<close> returns \<open>v\<close> and \<open>None\<close> when it raises
  \<open>JSONDecodeError\<close>. The loop over the lines numbers them from 1.
\<close>

fun parse_jsonl :: "(string \<Rightarrow> json option) \<Rightarrow> nat \<Rightarrow> string list \<Rightarrow> error + json list" where
  "parse_jsonl loads lineno [] = Inr []"
| "parse_jsonl loads lineno (line # lines) =
     (let stripped = strip line in
      if stripped = [] then parse_jsonl loads (lineno + 1) lines
      else
        (case loads stripped of
           None \<Rightarrow> Inl (JSONLLineError lineno)
         | Some entry \<Rightarrow>
             (case parse_jsonl loads (lineno + 1) lines of
                Inl e \<Rightarrow> Inl e
              | Inr entries \<Rightarrow> Inr (entry # entries))))"

definition is_list :: "json \<Rightarrow> bool" where
  "is_list v = (case v of JList xs \<Rightarrow> True | _ \<Rightarrow> False)"

text \<open>The envelope: a dictionary gives the list under \<open>trajectory\<close>, else the list under
  \<open>steps\<close>, else its first non-empty list value; a list is taken as it is.\<close>

definition envelope_steps :: "json \<Rightarrow> error + json list" where
  "envelope_steps raw =
     (case raw of
        JDict d \<Rightarrow>
          (case map_of d ''trajectory'' of
             Some (JList xs) \<Rightarrow> Inr xs
           | _ \<Rightarrow>
              (case map_of d ''steps'' of
                 Some (JList xs) \<Rightarrow> Inr xs
               | _ \<Rightarrow>
                  (case find (\<lambda>v. is_list v \<and> truthy v) (map snd d) of
                     Some (JList xs) \<Rightarrow> Inr xs
                   | _ \<Rightarrow> Inl UnexpectedFormat)))
      | JList xs \<Rightarrow> Inr xs
      | _ \<Rightarrow> Inl UnsupportedData)"

fun normalize :: "nat \<Rightarrow> json list \<Rightarrow> error + step list" where
  "normalize idx [] = Inr []"
| "normalize idx (s # ss) =
     (case s of
        JDict d \<Rightarrow>
          (case normalize (idx + 1) ss of
             Inl e \<Rightarrow> Inl e
           | Inr ds \<Rightarrow> Inr (d # ds))
      | _ \<Rightarrow> Inl (StepNotObject idx))"

definition load_raw :: "(string \<Rightarrow> json option) \<Rightarrow> string \<Rightarrow> error + json" where
  "load_raw loads text =
     (case loads text of
        Some raw \<Rightarrow> Inr raw
      | None \<Rightarrow>
          (case parse_jsonl loads 1 (splitlines text) of
             Inl e \<Rightarrow> Inl e
           | Inr steps \<Rightarrow> if steps = [] then Inl NoJSONObjects else Inr (JList steps)))"

definition load_trajectory :: "(string \<Rightarrow> json option) \<Rightarrow> string \<Rightarrow> error + step list" where
  "load_trajectory loads text =
     (case load_raw loads text of
        Inl e \<Rightarrow> Inl e
      | Inr raw \<Rightarrow>
          (case envelope_steps raw of
             Inl e \<Rightarrow> Inl e
           | Inr steps \<Rightarrow> normalize 0 steps))"

section \<open>The file system and the audit log\<close>

text \<open>
  A path is the list of its components below the repository root. The world holds the
  directories, the text files, which paths can be appended to, and the warnings the
  logger has received.
\<close>

type_synonym path = "string list"

record world =
  dirs :: "path \<Rightarrow> bool"
  files :: "path \<Rightarrow> string option"
  writable :: "path \<Rightarrow> bool"
  warnings :: "string list"

definition CLAUDE_DIR :: path where
  "CLAUDE_DIR = [''claude-sonnet-trajs'']"

definition QWEN_DIR :: path where
  "QWEN_DIR = [''Qwen-2.5-Coder-Instruct-trajs'']"

definition LOG_FILE :: path where
  "LOG_FILE = [''locate_reproduction_code.log'']"

definition LOG_SEARCH_FILE :: path where
  "LOG_SEARCH_FILE = [''locate_search.log'']"

definition LOG_TOOL_FILE :: path where
  "LOG_TOOL_FILE = [''locate_tool_use.log'']"

definition find_instance_dir :: "world \<Rightarrow> string \<Rightarrow> error + path" where
  "find_instance_dir w instance_id =
     (if dirs w (CLAUDE_DIR @ [instance_id]) then Inr (CLAUDE_DIR @ [instance_id])
      else if dirs w (QWEN_DIR @ [instance_id]) then Inr (QWEN_DIR @ [instance_id])
      else Inl InstanceDirNotFound)"

text \<open>Opening for append and writing either fails with an exception or extends the file.\<close>

definition append_text :: "world \<Rightarrow> path \<Rightarrow> string \<Rightarrow> string + world" where
  "append_text w p line =
     (if writable w p
      then Inr (w\<lparr>files := (files w)(p \<mapsto> (case files w p of None \<Rightarrow> [] | Some old \<Rightarrow> old) @ line)\<rparr>)
      else Inl ''OSError'')"

text \<open>\<open>_append_log_line\<close>: the exception of a failed write is caught and turned into a
  warning.\<close>

definition append_log_line :: "world \<Rightarrow> path \<Rightarrow> string \<Rightarrow> json \<Rightarrow> world" where
  "append_log_line w log_path instance_id steps =
     (case append_text w log_path (instance_id @ '': '' @ py_str steps @ [CHR 0x0A]) of
        Inr w' \<Rightarrow> w'
      | Inl exc \<Rightarrow> w\<lparr>warnings := warnings w @ [''Failed to write log: '' @ exc]\<rparr>)"

definition append_log :: "world \<Rightarrow> string \<Rightarrow> json \<Rightarrow> world" where
  "append_log w instance_id steps = append_log_line w LOG_FILE instance_id steps"

section \<open>The classifiers\<close>

text \<open>The three classifiers start alike: resolve the instance directory, check that the
  trajectory file is there, load it. \<open>instance_steps\<close> names that common prefix, for the
  statements below.\<close>

definition instance_steps :: "(string \<Rightarrow> json option) \<Rightarrow> world \<Rightarrow> string \<Rightarrow> error + step list" where
  "instance_steps loads w instance_id =
     (case find_instance_dir w instance_id of
        Inl e \<Rightarrow> Inl e
      | Inr instance_dir \<Rightarrow>
          (case files w (instance_dir @ [instance_id @ ''.traj'']) of
             None \<Rightarrow> Inl TrajectoryFileNotFound
           | Some text \<Rightarrow> load_trajectory loads text))"

definition index_list :: "int list \<Rightarrow> json" where
  "index_list idxs = JList (map JInt idxs)"

subsection \<open>\<open>locate_reproduction_code\<close>\<close>

fun reproduction_matches :: "int \<Rightarrow> step list \<Rightarrow> error + int list" where
  "reproduction_matches idx [] = Inr []"
| "reproduction_matches idx (step # steps) =
     (case is_reproduction_step step of
        Inl e \<Rightarrow> Inl e
      | Inr hit \<Rightarrow>
          (case reproduction_matches (idx + 1) steps of
             Inl e \<Rightarrow> Inl e
           | Inr matches \<Rightarrow> Inr (if hit then idx # matches else matches)))"

definition locate_reproduction_code ::
  "(string \<Rightarrow> json option) \<Rightarrow> world \<Rightarrow> string \<Rightarrow> (error + int list) \<times> world" where
  "locate_reproduction_code loads w instance_id =
     (case find_instance_dir w instance_id of
        Inl e \<Rightarrow> (Inl e, w)
      | Inr instance_dir \<Rightarrow>
          (case files w (instance_dir @ [instance_id @ ''.traj'']) of
             None \<Rightarrow> (Inl TrajectoryFileNotFound, w)
           | Some text \<Rightarrow>
               (case load_trajectory loads text of
                  Inl e \<Rightarrow> (Inl e, w)
                | Inr steps \<Rightarrow>
                    (case reproduction_matches 1 steps of
                       Inl e \<Rightarrow> (Inl e, w)
                     | Inr matches \<Rightarrow>
                         (let sorted_matches = sort (remdups matches)
                          in (Inr sorted_matches,
                              append_log w instance_id (index_list sorted_matches)))))))"

subsection \<open>\<open>locate_search\<close>\<close>

definition search_tool_names :: "string set" where
  "search_tool_names = {''find_file'', ''search_file'', ''search_dir''}"

text \<open>The body of the loop for one step: the tool name is resolved first, then the
  command text; rules A, C and B in the order of the source.\<close>

definition is_search_step :: "step \<Rightarrow> error + bool" where
  "is_search_step step =
     (case get_tool_name step of
        Inl e \<Rightarrow> Inl e
      | Inr name \<Rightarrow>
          (case get_command_text step of
             Inl e \<Rightarrow> Inl e
           | Inr command_text \<Rightarrow>
               (let tool_name = lower name; command_lower = lower command_text in
                if tool_name \<in> search_tool_names then Inr True
                else if tool_name = ''str_replace_editor'' \<and> contains ''view'' command_lower
                  then Inr True
                else if shell_markers_search command_lower then Inr True
                else Inr False)))"

fun search_matches :: "int \<Rightarrow> step list \<Rightarrow> error + int list" where
  "search_matches idx [] = Inr []"
| "search_matches idx (step # steps) =
     (case is_search_step step of
        Inl e \<Rightarrow> Inl e
      | Inr hit \<Rightarrow>
          (case search_matches (idx + 1) steps of
             Inl e \<Rightarrow> Inl e
           | Inr matches \<Rightarrow> Inr (if hit then idx # matches else matches)))"

definition locate_search ::
  "(string \<Rightarrow> json option) \<Rightarrow> world \<Rightarrow> string \<Rightarrow> (error + int list) \<times> world" where
  "locate_search loads w instance_id =
     (case find_instance_dir w instance_id of
        Inl e \<Rightarrow> (Inl e, w)
      | Inr instance_dir \<Rightarrow>
          (case files w (instance_dir @ [instance_id @ ''.traj'']) of
             None \<Rightarrow> (Inl TrajectoryFileNotFound, w)
           | Some text \<Rightarrow>
               (case load_trajectory loads text of
                  Inl e \<Rightarrow> (Inl e, w)
                | Inr steps \<Rightarrow>
                    (case search_matches 1 steps of
                       Inl e \<Rightarrow> (Inl e, w)
                     | Inr matches \<Rightarrow>
                         (let unique_matches = sort (remdups matches)
                          in (Inr unique_matches,
                              append_log_line w LOG_SEARCH_FILE instance_id
                                (index_list unique_matches)))))))"

subsection \<open>\<open>locate_tool_use\<close>\<close>

text \<open>\<open>counts\<close> is a dictionary in insertion order; \<open>counts.get(name, 0)\<close> is the
  lookup with default.\<close>

definition get_count :: "(string \<times> int) list \<Rightarrow> string \<Rightarrow> int" where
  "get_count counts name = (case map_of counts name of None \<Rightarrow> 0 | Some n \<Rightarrow> n)"

fun count_tools :: "(string \<times> int) list \<Rightarrow> step list \<Rightarrow> error + (string \<times> int) list" where
  "count_tools counts [] = Inr counts"
| "count_tools counts (step # steps) =
     (case get_tool_name step of
        Inl e \<Rightarrow> Inl e
      | Inr name \<Rightarrow>
          (let tool_name = strip name in
           if tool_name = [] then count_tools counts steps
           else count_tools (AList.update tool_name (get_count counts tool_name + 1) counts)
                  steps))"

text \<open>\<open>{k: counts[k] for k in sorted(counts)}\<close>; every \<open>k\<close> is a key of \<open>counts\<close>, so
  the lookup finds it.\<close>

definition sorted_counts :: "(string \<times> int) list \<Rightarrow> (string \<times> int) list" where
  "sorted_counts counts = map (\<lambda>k. (k, get_count counts k)) (sort (map fst counts))"

definition count_dict :: "(string \<times> int) list \<Rightarrow> json" where
  "count_dict counts = JDict (map (\<lambda>(k, n). (k, JInt n)) counts)"

definition locate_tool_use ::
  "(string \<Rightarrow> json option) \<Rightarrow> world \<Rightarrow> string \<Rightarrow> (error + (string \<times> int) list) \<times> world" where
  "locate_tool_use loads w instance_id =
     (case find_instance_dir w instance_id of
        Inl e \<Rightarrow> (Inl e, w)
      | Inr instance_dir \<Rightarrow>
          (case files w (instance_dir @ [instance_id @ ''.traj'']) of
             None \<Rightarrow> (Inl TrajectoryFileNotFound, w)
           | Some text \<Rightarrow>
               (case load_trajectory loads text of
                  Inl e \<Rightarrow> (Inl e, w)
                | Inr steps \<Rightarrow>
                    (case count_tools [] steps of
                       Inl e \<Rightarrow> (Inl e, w)
                     | Inr counts \<Rightarrow>
                         (let result = sorted_counts counts
                          in (Inr result,
                              append_log_line w LOG_TOOL_FILE instance_id
                                (count_dict result)))))))"

subsection \<open>Names for the statements about \<open>locate_tool_use\<close>\<close>

text \<open>\<open>_get_tool_name(step).strip()\<close>, the key under which the loop counts a step, and
  the test that it is non-empty.\<close>

definition resolved_tool :: "step \<Rightarrow> error + string" where
  "resolved_tool step =
     (case get_tool_name step of Inl e \<Rightarrow> Inl e | Inr name \<Rightarrow> Inr (strip name))"

definition has_tool_name :: "step \<Rightarrow> bool" where
  "has_tool_name step =
     (case resolved_tool step of Inl e \<Rightarrow> False | Inr name \<Rightarrow> name \<noteq> [])"

definition occurrences :: "string \<Rightarrow> step list \<Rightarrow> int" where
  "occurrences name steps = int (length (filter (\<lambda>step. resolved_tool step = Inr name) steps))"

subsection \<open>Names for the statements about the loader\<close>


text \<open>The world in which the file at a path holds the given text.\<close>

definition with_file :: "world \<Rightarrow> path \<Rightarrow> string \<Rightarrow> world" where
  "with_file w p content = w\<lparr>files := (files w)(p \<mapsto> content)\<rparr>"

section \<open>Example trajectories\<close>

definition example_text :: string where
  "example_text =
     ''[{\"action\": \"str_replace_editor create /tmp/test_repro.py\"}, '' @
     ''{\"action\": \"grep -r TODO src/\"}, {\"action\": \"category\"}, '' @
     ''{\"action\": \"python test_repro.py\", \"thought\": \"run the minimal repro\"}]''"

definition example_steps :: "step list" where
  "example_steps =
     [[(''action'', JStr ''str_replace_editor create /tmp/test_repro.py'')],
      [(''action'', JStr ''grep -r TODO src/'')],
      [(''action'', JStr ''category'')],
      [(''action'', JStr ''python test_repro.py''),
       (''thought'', JStr ''run the minimal repro'')]]"

definition tool_example_text :: string where
  "tool_example_text =
     ''[{\"tool\": \"bash\"}, {\"thought\": \"think\"}, {\"name\": \" bash \"}]''"


definition tool_example_steps :: "step list" where
  "tool_example_steps =
     [[(''tool'', JStr ''bash'')], [(''thought'', JStr ''think'')],
      [(''name'', JStr '' bash '')]]"

definition tool_example_world :: world where
  "tool_example_world =
     \<lparr>dirs = (\<lambda>p. p = [''Qwen-2.5-Coder-Instruct-trajs'', ''demo'']),
      files = (\<lambda>p. if p = [''Qwen-2.5-Coder-Instruct-trajs'', ''demo'', ''demo.traj'']
                    then Some tool_example_text else None),
      writable = (\<lambda>p. False),
      warnings = []\<rparr>"

definition example_world :: world where
  "example_world =
     \<lparr>dirs = (\<lambda>p. p = [''claude-sonnet-trajs'', ''demo'']),
      files = (\<lambda>p. if p = [''claude-sonnet-trajs'', ''demo'', ''demo.traj'']
                    then Some example_text else None),
      writable = (\<lambda>p. True),
      warnings = []\<rparr>"

section \<open>Totality of the header and of the reproduction test\<close>

lemma splitlines_from_nonempty: "cur \<noteq> [] \<or> s \<noteq> [] \<Longrightarrow> splitlines_from cur s \<noteq> []"
  by (induction s arbitrary: cur) (auto split: list.splits)

lemma action_header_total: "\<exists>header. action_header t = Inr header"
proof (cases "splitlines t")
  case Nil
  then have "t = []"
    using splitlines_from_nonempty [of "[]" t] by (auto simp: splitlines_def)
  then show ?thesis by (simp add: action_header_def)
next
  case (Cons l ls)
  then show ?thesis by (simp add: action_header_def)
qed

lemma is_reproduction_step_total: "\<exists>hit. is_reproduction_step step = Inr hit"
proof -
  obtain header where "action_header (raw_action step) = Inr header"
    using action_header_total by blast
  then show ?thesis by (auto simp: is_reproduction_step_def Let_def)
qed

lemma reproduction_matches_total: "\<exists>ms. reproduction_matches idx steps = Inr ms"
proof (induction steps arbitrary: idx)
  case Nil
  show ?case by simp
next
  case (Cons step steps)
  obtain hit where h: "is_reproduction_step step = Inr hit"
    using is_reproduction_step_total by blast
  obtain ms where "reproduction_matches (idx + 1) steps = Inr ms"
    using Cons.IH by blast
  with h show ?case by simp
qed

lemma reproduction_matches_set:
  "reproduction_matches idx steps = Inr ms \<Longrightarrow>
   set ms = {idx + int i | i. i < length steps \<and> is_reproduction_step (steps ! i) = Inr True}"
proof (induction steps arbitrary: idx ms)
  case Nil
  then show ?case by simp
next
  case (Cons step steps)
  from Cons.prems obtain hit ms' where
    hit: "is_reproduction_step step = Inr hit" and
    rest: "reproduction_matches (idx + 1) steps = Inr ms'" and
    ms: "ms = (if hit then idx # ms' else ms')"
    by (auto split: sum.splits)
  have IH: "set ms' = {idx + 1 + int i | i. i < length steps \<and> is_reproduction_step (steps ! i) = Inr True}"
    using Cons.IH [OF rest] .
  show ?case
  proof (rule set_eqI)
    fix j
    show "j \<in> set ms \<longleftrightarrow> j \<in> {idx + int i | i. i < length (step # steps) \<and> is_reproduction_step ((step # steps) ! i) = Inr True}"
    proof
      assume "j \<in> set ms"
      then consider "hit" "j = idx" | "j \<in> set ms'"
        using ms by (auto split: if_splits)
      then show "j \<in> {idx + int i | i. i < length (step # steps) \<and> is_reproduction_step ((step # steps) ! i) = Inr True}"
      proof cases
        case 1
        then have "j = idx + int 0 \<and> 0 < length (step # steps) \<and> is_reproduction_step ((step # steps) ! 0) = Inr True"
          using hit by simp
        then show ?thesis by blast
      next
        case 2
        then obtain i where "j = idx + 1 + int i" "i < length steps" "is_reproduction_step (steps ! i) = Inr True"
          using IH by auto
        then have "j = idx + int (Suc i) \<and> Suc i < length (step # steps) \<and> is_reproduction_step ((step # steps) ! Suc i) = Inr True"
          by simp
        then show ?thesis by blast
      qed
    next
      assume "j \<in> {idx + int i | i. i < length (step # steps) \<and> is_reproduction_step ((step # steps) ! i) = Inr True}"
      then obtain i where i: "j = idx + int i" "i < length (step # steps)" "is_reproduction_step ((step # steps) ! i) = Inr True"
        by auto
      show "j \<in> set ms"
      proof (cases i)
        case 0
        with i hit ms show ?thesis by simp
      next
        case (Suc k)
        with i have "j = idx + 1 + int k" "k < length steps" "is_reproduction_step (steps ! k) = Inr True"
          by simp_all
        then have "j \<in> set ms'" using IH by blast
        then show ?thesis using ms by simp
      qed
    qed
  qed
qed

lemma locate_reproduction_code_result:
  assumes "instance_steps loads w iid = Inr steps"
  shows "\<exists>idxs. fst (locate_reproduction_code loads w iid) = Inr idxs \<and>
           set idxs = {1 + int i | i. i < length steps \<and> is_reproduction_step (steps ! i) = Inr True}"
proof -
  obtain ms where ms: "reproduction_matches 1 steps = Inr ms"
    using reproduction_matches_total by blast
  from assms obtain d content where
    d: "find_instance_dir w iid = Inr d" and
    f: "files w (d @ [iid @ ''.traj'']) = Some content" and
    l: "load_trajectory loads content = Inr steps"
    by (auto simp: instance_steps_def split: sum.splits option.splits)
  have "fst (locate_reproduction_code loads w iid) = Inr (sort (remdups ms))"
    using d f l ms by (simp add: locate_reproduction_code_def Let_def)
  moreover have "set (sort (remdups ms)) = {1 + int i | i. i < length steps \<and> is_reproduction_step (steps ! i) = Inr True}"
    using reproduction_matches_set [OF ms] by simp
  ultimately show ?thesis by blast
qed

lemma example_world_steps:
  "instance_steps json_loads example_world ''demo'' = Inr example_steps"
  by code_simp

lemma raw_action_of_action:
  "map_of step ''action'' = Some (JStr a) \<Longrightarrow> a \<noteq> [] \<Longrightarrow> raw_action step = a"
  by (simp add: raw_action_def dict_get_def py_or_def py_str_def)

lemma starts_with_iff: "starts_with v s \<longleftrightarrow> (\<exists>post. s = v @ post)"
  by (induction v s rule: starts_with.induct) auto

lemma verb_here_iff:
  "verb_here prev s \<longleftrightarrow>
     (\<exists>v post. s = v @ post \<and> v \<in> set shell_verbs \<and> boundary prev (v @ post) \<and>
               boundary (Some (last v)) post)"
proof
  assume "verb_here prev s"
  then obtain v where v: "v \<in> set shell_verbs" "starts_with v s" "boundary prev s"
      "boundary (Some (last v)) (drop (length v) s)"
    by (auto simp: verb_here_def list_ex_iff)
  then obtain post where "s = v @ post"
    by (auto simp: starts_with_iff)
  with v have "s = v @ post \<and> v \<in> set shell_verbs \<and> boundary prev (v @ post) \<and>
               boundary (Some (last v)) post"
    by simp
  then show "\<exists>v post. s = v @ post \<and> v \<in> set shell_verbs \<and> boundary prev (v @ post) \<and>
               boundary (Some (last v)) post"
    by blast
next
  assume "\<exists>v post. s = v @ post \<and> v \<in> set shell_verbs \<and> boundary prev (v @ post) \<and>
               boundary (Some (last v)) post"
  then obtain v post where "s = v @ post" "v \<in> set shell_verbs" "boundary prev (v @ post)"
      "boundary (Some (last v)) post"
    by blast
  then show "verb_here prev s"
    by (auto simp: verb_here_def list_ex_iff starts_with_iff)
qed

lemma shell_markers_from_iff:
  "shell_markers_from prev s \<longleftrightarrow>
     (\<exists>pre v post. s = pre @ v @ post \<and> v \<in> set shell_verbs \<and>
        boundary (if pre = [] then prev else Some (last pre)) (v @ post) \<and>
        boundary (Some (last v)) post)"
proof (induction s arbitrary: prev)
  case Nil
  show ?case by (auto simp: verb_here_iff)
next
  case (Cons c cs)
  let ?R = "\<lambda>prev s pre v post. s = pre @ v @ post \<and> v \<in> set shell_verbs \<and>
        boundary (if pre = [] then prev else Some (last pre)) (v @ post) \<and>
        boundary (Some (last v)) post"
  show ?case
  proof
    assume "shell_markers_from prev (c # cs)"
    then consider "verb_here prev (c # cs)" | "shell_markers_from (Some c) cs"
      by auto
    then show "\<exists>pre v post. ?R prev (c # cs) pre v post"
    proof cases
      case 1
      then obtain v post where "?R prev (c # cs) [] v post"
        by (auto simp: verb_here_iff)
      then show ?thesis by blast
    next
      case 2
      then obtain pre v post where r: "?R (Some c) cs pre v post"
        using Cons.IH by blast
      then have "?R prev (c # cs) (c # pre) v post"
        by (cases pre) auto
      then show ?thesis by blast
    qed
  next
    assume "\<exists>pre v post. ?R prev (c # cs) pre v post"
    then obtain pre v post where r: "?R prev (c # cs) pre v post"
      by blast
    show "shell_markers_from prev (c # cs)"
    proof (cases pre)
      case Nil
      with r have "verb_here prev (c # cs)"
        by (auto simp: verb_here_iff)
      then show ?thesis by simp
    next
      case (Cons p pre')
      with r have "?R (Some c) cs pre' v post"
        by (cases pre') auto
      then have "shell_markers_from (Some c) cs"
        using Cons.IH by blast
      then show ?thesis by simp
    qed
  qed
qed

lemma shell_verb_ends:
  "v \<in> set shell_verbs \<Longrightarrow> v \<noteq> [] \<and> is_word_char (hd v) \<and> is_word_char (last v)"
  by (auto simp: shell_verbs_def is_word_char_def code_def)

lemma shell_markers_search_iff:
  "shell_markers_search s \<longleftrightarrow>
     (\<exists>pre v post. s = pre @ v @ post \<and> v \<in> set shell_verbs \<and>
        (pre = [] \<or> \<not> is_word_char (last pre)) \<and>
        (post = [] \<or> \<not> is_word_char (hd post)))"
proof -
  have "boundary (if pre = [] then None else Some (last pre)) (v @ post) \<and>
        boundary (Some (last v)) post \<longleftrightarrow>
        (pre = [] \<or> \<not> is_word_char (last pre)) \<and> (post = [] \<or> \<not> is_word_char (hd post))"
    if "v \<in> set shell_verbs" for pre v post
  proof -
    from shell_verb_ends [OF that] obtain a w where "v = a # w" "is_word_char a" "is_word_char (last v)"
      by (cases v) auto
    then show ?thesis
      by (cases post) (auto simp: boundary_def word_opt_def)
  qed
  then show ?thesis
    unfolding shell_markers_search_def shell_markers_from_iff by blast
qed

lemma search_matches_set:
  "search_matches idx steps = Inr ms \<Longrightarrow>
   set ms = {idx + int i | i. i < length steps \<and> is_search_step (steps ! i) = Inr True}"
proof (induction steps arbitrary: idx ms)
  case Nil
  then show ?case by simp
next
  case (Cons step steps)
  from Cons.prems obtain hit ms' where
    hit: "is_search_step step = Inr hit" and
    rest: "search_matches (idx + 1) steps = Inr ms'" and
    ms: "ms = (if hit then idx # ms' else ms')"
    by (auto split: sum.splits)
  have IH: "set ms' = {idx + 1 + int i | i. i < length steps \<and> is_search_step (steps ! i) = Inr True}"
    using Cons.IH [OF rest] .
  show ?case
  proof (rule set_eqI)
    fix j
    show "j \<in> set ms \<longleftrightarrow> j \<in> {idx + int i | i. i < length (step # steps) \<and> is_search_step ((step # steps) ! i) = Inr True}"
    proof
      assume "j \<in> set ms"
      then consider "hit" "j = idx" | "j \<in> set ms'"
        using ms by (auto split: if_splits)
      then show "j \<in> {idx + int i | i. i < length (step # steps) \<and> is_search_step ((step # steps) ! i) = Inr True}"
      proof cases
        case 1
        then have "j = idx + int 0 \<and> 0 < length (step # steps) \<and> is_search_step ((step # steps) ! 0) = Inr True"
          using hit by simp
        then show ?thesis by blast
      next
        case 2
        then obtain i where "j = idx + 1 + int i" "i < length steps" "is_search_step (steps ! i) = Inr True"
          using IH by auto
        then have "j = idx + int (Suc i) \<and> Suc i < length (step # steps) \<and> is_search_step ((step # steps) ! Suc i) = Inr True"
          by simp
        then show ?thesis by blast
      qed
    next
      assume "j \<in> {idx + int i | i. i < length (step # steps) \<and> is_search_step ((step # steps) ! i) = Inr True}"
      then obtain i where i: "j = idx + int i" "i < length (step # steps)" "is_search_step ((step # steps) ! i) = Inr True"
        by auto
      show "j \<in> set ms"
      proof (cases i)
        case 0
        with i hit ms show ?thesis by simp
      next
        case (Suc k)
        with i have "j = idx + 1 + int k" "k < length steps" "is_search_step (steps ! k) = Inr True"
          by simp_all
        then have "j \<in> set ms'" using IH by blast
        then show ?thesis using ms by simp
      qed
    qed
  qed
qed

lemma locate_search_result:
  assumes "instance_steps loads w iid = Inr steps"
    and "fst (locate_search loads w iid) = Inr idxs"
  shows "set idxs = {1 + int i | i. i < length steps \<and> is_search_step (steps ! i) = Inr True}"
proof -
  from assms(1) obtain d content where
    d: "find_instance_dir w iid = Inr d" and
    f: "files w (d @ [iid @ ''.traj'']) = Some content" and
    l: "load_trajectory loads content = Inr steps"
    by (auto simp: instance_steps_def split: sum.splits option.splits)
  from assms(2) d f l obtain ms where ms: "search_matches 1 steps = Inr ms"
    and idxs: "idxs = sort (remdups ms)"
    by (auto simp: locate_search_def Let_def split: sum.splits)
  show ?thesis
    using search_matches_set [OF ms] idxs by simp
qed

lemma action_only_step:
  assumes "first_set_field [''tool'', ''tool_name'', ''name''] step = None"
    and "first_set_field [''command'', ''args'', ''input''] step = None"
    and "map_of step ''action'' = Some (JStr a)" and "a \<noteq> []"
  shows "is_search_step step = is_search_step [(''action'', JStr a)]"
proof -
  have name: "get_tool_name step = get_tool_name [(''action'', JStr a)]"
    using assms by (simp add: get_tool_name_def dict_get_def py_or_def)
  have command: "get_command_text step = get_command_text [(''action'', JStr a)]"
    using assms by (simp add: get_command_text_def dict_get_def py_or_def)
  show ?thesis
    unfolding is_search_step_def name command ..
qed

section \<open>The counting loop\<close>

lemma get_count_update:
  "get_count (AList.update k v al) name = (if name = k then v else get_count al name)"
  by (simp add: get_count_def update_conv')

lemma occurrences_Cons:
  "occurrences name (step # steps) =
     (if resolved_tool step = Inr name then 1 else 0) + occurrences name steps"
  by (simp add: occurrences_def)


lemma count_tools_map_of:
  "count_tools counts steps = Inr counts' \<Longrightarrow>
   map_of counts' name =
     (if name \<noteq> [] \<and> 0 < occurrences name steps
      then Some (get_count counts name + occurrences name steps)
      else map_of counts name)"
proof (induction steps arbitrary: counts)
  case Nil
  then show ?case by (simp add: occurrences_def)
next
  case (Cons step steps)
  from Cons.prems obtain n where n: "get_tool_name step = Inr n"
    by (auto split: sum.splits)
  then have r: "resolved_tool step = Inr (strip n)"
    by (simp add: resolved_tool_def)
  have nonneg: "0 \<le> occurrences name steps"
    by (simp add: occurrences_def)
  show ?case
  proof (cases "strip n = []")
    case True
    with Cons.prems n have "count_tools counts steps = Inr counts'"
      by simp
    from Cons.IH [OF this] show ?thesis
      using r True by (auto simp: occurrences_Cons)
  next
    case False
    let ?c = "AList.update (strip n) (get_count counts (strip n) + 1) counts"
    from Cons.prems n False have "count_tools ?c steps = Inr counts'"
      by (simp add: Let_def)
    from Cons.IH [OF this] show ?thesis
      using r False nonneg
      by (auto simp: occurrences_Cons get_count_update update_conv' get_count_def)
  qed
qed

lemma count_tools_distinct:
  "count_tools counts steps = Inr counts' \<Longrightarrow> distinct (map fst counts) \<Longrightarrow>
   distinct (map fst counts')"
proof (induction steps arbitrary: counts)
  case Nil
  then show ?case by simp
next
  case (Cons step steps)
  from Cons.prems(1) obtain n where n: "get_tool_name step = Inr n"
    by (auto split: sum.splits)
  show ?case
  proof (cases "strip n = []")
    case True
    with Cons n show ?thesis by simp
  next
    case False
    let ?c = "AList.update (strip n) (get_count counts (strip n) + 1) counts"
    from Cons.prems n False have "count_tools ?c steps = Inr counts'"
      by (simp add: Let_def)
    moreover have "distinct (map fst ?c)"
      using Cons.prems(2) by (simp add: distinct_update)
    ultimately show ?thesis by (rule Cons.IH)
  qed
qed

lemma sum_update_incr:
  "distinct (map fst al) \<Longrightarrow>
   sum_list (map snd (AList.update k (get_count al k + 1) al)) = sum_list (map snd al) + 1"
proof (induction al)
  case Nil
  show ?case by (simp add: get_count_def)
next
  case (Cons kv al)
  obtain k' v' where kv: "kv = (k', v')" by (cases kv)
  show ?case
  proof (cases "k' = k")
    case True
    then show ?thesis using kv by (simp add: get_count_def)
  next
    case False
    have "get_count (kv # al) k = get_count al k"
      using False kv by (simp add: get_count_def)
    then show ?thesis
      using Cons False kv by simp
  qed
qed

lemma has_tool_name_iff:
  "get_tool_name step = Inr n \<Longrightarrow> has_tool_name step \<longleftrightarrow> strip n \<noteq> []"
  by (simp add: has_tool_name_def resolved_tool_def)

lemma count_tools_sum:
  "count_tools counts steps = Inr counts' \<Longrightarrow> distinct (map fst counts) \<Longrightarrow>
   sum_list (map snd counts') = sum_list (map snd counts) + int (length (filter has_tool_name steps))"
proof (induction steps arbitrary: counts)
  case Nil
  then show ?case by simp
next
  case (Cons step steps)
  from Cons.prems(1) obtain n where n: "get_tool_name step = Inr n"
    by (auto split: sum.splits)
  show ?case
  proof (cases "strip n = []")
    case True
    with Cons n show ?thesis by (simp add: has_tool_name_iff)
  next
    case False
    let ?c = "AList.update (strip n) (get_count counts (strip n) + 1) counts"
    from Cons.prems n False have run: "count_tools ?c steps = Inr counts'"
      by (simp add: Let_def)
    have d: "distinct (map fst ?c)"
      using Cons.prems(2) by (simp add: distinct_update)
    have "sum_list (map snd counts') = sum_list (map snd ?c) + int (length (filter has_tool_name steps))"
      using Cons.IH [OF run d] .
    also have "sum_list (map snd ?c) = sum_list (map snd counts) + 1"
      using Cons.prems(2) by (rule sum_update_incr)
    finally show ?thesis
      using n False by (simp add: has_tool_name_iff)
  qed
qed

lemma sorted_counts_keys: "map fst (sorted_counts counts) = sort (map fst counts)"
  by (simp add: sorted_counts_def comp_def)

lemma sorted_counts_map_of:
  "map_of (sorted_counts counts) name = map_of counts name"
proof -
  have "map_of (sorted_counts counts) = (Some \<circ> get_count counts) |` set (sort (map fst counts))"
    unfolding sorted_counts_def by (rule map_of_map_restrict)
  then have eq: "map_of (sorted_counts counts) name =
      (if name \<in> fst ` set counts then Some (get_count counts name) else None)"
    by (simp add: restrict_map_def)
  show ?thesis
  proof (cases "map_of counts name")
    case None
    then have "name \<notin> fst ` set counts"
      by (simp add: map_of_eq_None_iff)
    with eq None show ?thesis by simp
  next
    case (Some n)
    then have "(name, n) \<in> set counts"
      by (rule map_of_SomeD)
    then have "fst (name, n) \<in> fst ` set counts"
      by (rule imageI)
    then have "name \<in> fst ` set counts"
      by simp
    with eq Some show ?thesis by (simp add: get_count_def)
  qed
qed

lemma sorted_counts_sum:
  assumes "distinct (map fst counts)"
  shows "sum_list (map snd (sorted_counts counts)) = sum_list (map snd counts)"
proof -
  have keys: "distinct (sort (map fst counts))" "set (sort (map fst counts)) = set (map fst counts)"
    using assms by simp_all
  have "sum_list (map snd (sorted_counts counts)) = sum_list (map (get_count counts) (sort (map fst counts)))"
    by (simp add: sorted_counts_def comp_def)
  also have "\<dots> = sum (get_count counts) (set (map fst counts))"
    using keys by (simp add: sum_list_distinct_conv_sum_set)
  also have "\<dots> = sum_list (map (get_count counts) (map fst counts))"
    using assms sum_list_distinct_conv_sum_set [of "map fst counts" "get_count counts"]
    by simp
  also have "map (get_count counts) (map fst counts) = map snd counts"
    using assms by (induction counts) (auto simp: get_count_def rev_image_eqI)
  finally show ?thesis .
qed

lemma locate_tool_use_result:
  assumes "instance_steps loads w iid = Inr steps"
    and "fst (locate_tool_use loads w iid) = Inr result"
  shows "\<exists>counts. count_tools [] steps = Inr counts \<and> result = sorted_counts counts"
proof -
  from assms(1) obtain d content where
    d: "find_instance_dir w iid = Inr d" and
    f: "files w (d @ [iid @ ''.traj'']) = Some content" and
    l: "load_trajectory loads content = Inr steps"
    by (auto simp: instance_steps_def split: sum.splits option.splits)
  from assms(2) d f l show ?thesis
    by (auto simp: locate_tool_use_def Let_def split: sum.splits)
qed

lemma tool_example_world_steps:
  "instance_steps json_loads tool_example_world ''demo'' = Inr tool_example_steps"
  by code_simp

lemma tool_example_world_result:
  "fst (locate_tool_use json_loads tool_example_world ''demo'') = Inr [(''bash'', 2)]"
  by code_simp

section \<open>The JSON parser on longer texts\<close>

subsection \<open>Fuel\<close>

lemma parse_fuel_mono:
  "(parse_value n s = Some r1 \<longrightarrow> parse_value (n + k) s = Some r1) \<and>
   (parse_items n s = Some r2 \<longrightarrow> parse_items (n + k) s = Some r2) \<and>
   (parse_pairs n s = Some r3 \<longrightarrow> parse_pairs (n + k) s = Some r3)"
proof (induction n arbitrary: s r1 r2 r3)
  case 0
  show ?case by simp
next
  case (Suc n)
  have v: "parse_value n s = Some r \<Longrightarrow> parse_value (n + k) s = Some r" for s r
    using Suc by blast
  have i: "parse_items n s = Some r \<Longrightarrow> parse_items (n + k) s = Some r" for s r
    using Suc by blast
  have p: "parse_pairs n s = Some r \<Longrightarrow> parse_pairs (n + k) s = Some r" for s r
    using Suc by blast
  have "parse_value (Suc n + k) s = parse_value (Suc n) s" if h: "parse_value (Suc n) s = Some r1"
  proof (cases s)
    case Nil
    then show ?thesis by simp
  next
    case (Cons c cs)
    show ?thesis
    proof (cases "c = CHR ''{'' \<and> \<not> starts_with ''}'' (skip_ws cs)")
      case True
      with h Cons obtain r where r: "parse_pairs n (skip_ws cs) = Some r"
        by (cases "parse_pairs n (skip_ws cs)") auto
      from p [OF r] r Cons True show ?thesis by simp
    next
      case notobj: False
      show ?thesis
      proof (cases "c = CHR ''['' \<and> \<not> starts_with '']'' (skip_ws cs)")
        case True
        with h Cons obtain r where r: "parse_items n (skip_ws cs) = Some r"
          by (cases "parse_items n (skip_ws cs)") auto
        from i [OF r] r Cons True show ?thesis by simp
      next
        case False
        with notobj Cons show ?thesis
          by (cases "c = CHR ''{''"; cases "c = CHR ''[''") simp_all
      qed
    qed
  qed
  moreover have "parse_items (Suc n + k) s = parse_items (Suc n) s" if h: "parse_items (Suc n) s = Some r2"
  proof -
    from h obtain v' rest where pv: "parse_value n s = Some (v', rest)"
      by (cases "parse_value n s") auto
    note pv' = v [OF pv]
    show ?thesis
    proof (cases "skip_ws rest")
      case Nil
      with pv pv' show ?thesis by simp
    next
      case (Cons c rest')
      show ?thesis
      proof (cases "c = CHR '','' \<and> c \<noteq> CHR '']''")
        case True
        with h pv Cons obtain r where r: "parse_items n (skip_ws rest') = Some r"
          by (cases "parse_items n (skip_ws rest')") auto
        from i [OF r] r pv pv' Cons True show ?thesis by simp
      next
        case False
        with pv pv' Cons show ?thesis by auto
      qed
    qed
  qed
  moreover have "parse_pairs (Suc n + k) s = parse_pairs (Suc n) s" if h: "parse_pairs (Suc n) s = Some r3"
  proof -
    from h obtain cs where s: "s = CHR 0x22 # cs"
      by (cases s) (auto split: if_splits)
    from h s obtain key rest where key: "scan_string cs = Some (key, rest)"
      by (cases "scan_string cs") auto
    from h s key obtain rest1 where colon: "skip_ws rest = CHR '':'' # rest1"
      by (cases "skip_ws rest") (auto split: if_splits)
    from h s key colon obtain v' rest2 where pv: "parse_value n (skip_ws rest1) = Some (v', rest2)"
      by (cases "parse_value n (skip_ws rest1)") auto
    note pv' = v [OF pv]
    show ?thesis
    proof (cases "skip_ws rest2")
      case Nil
      with s key colon pv pv' show ?thesis by simp
    next
      case (Cons c rest3)
      show ?thesis
      proof (cases "c = CHR '','' \<and> c \<noteq> CHR ''}''")
        case True
        with h s key colon pv Cons obtain r where r: "parse_pairs n (skip_ws rest3) = Some r"
          by (cases "parse_pairs n (skip_ws rest3)") auto
        from p [OF r] r s key colon pv pv' Cons True show ?thesis by simp
      next
        case False
        with s key colon pv pv' Cons show ?thesis by auto
      qed
    qed
  qed
  ultimately show ?case by metis
qed

lemma parse_value_fuel: "parse_value n s = Some r \<Longrightarrow> n \<le> m \<Longrightarrow> parse_value m s = Some r"
  using parse_fuel_mono [where n = n and s = s and ?r1.0 = r and k = "m - n"] by simp

subsection \<open>More text behind a parsed value\<close>


lemma starts_with_append: "starts_with p s \<Longrightarrow> starts_with p (s @ t)"
  by (induction p s rule: starts_with.induct) auto

lemma starts_with_length: "starts_with p s \<Longrightarrow> length p \<le> length s"
  by (induction p s rule: starts_with.induct) auto






lemma parse_value_Nil [simp]: "parse_value n [] = None"
  by (cases n) simp_all

lemma parse_items_Nil [simp]: "parse_items n [] = None"
  by (cases n) simp_all

lemma parse_pairs_Nil [simp]: "parse_pairs n [] = None"
  by (cases n) simp_all

lemma starts_with_head: "starts_with (p # ps) (c # cs) \<Longrightarrow> p = c"
  by simp



lemma literal_append:
  "starts_with p s \<Longrightarrow> starts_with p (s @ t) \<and> drop (length p) (s @ t) = drop (length p) s @ t"
  using starts_with_append [of p s t] starts_with_length [of p s] by simp






subsection \<open>Lines of JSON objects are not one JSON document\<close>







subsection \<open>Splitting and parsing the lines\<close>









subsection \<open>The classifiers read the file only through the loader\<close>

lemma find_instance_dir_with_file [simp]:
  "find_instance_dir (with_file w p content) iid = find_instance_dir w iid"
  by (simp add: find_instance_dir_def with_file_def)





subsection \<open>The counter never cuts a parse short\<close>

lemma skip_ws_length: "length (skip_ws s) \<le> length s"
  by (simp add: skip_ws_def length_dropWhile_le)

lemma skip_ws_Cons_length: "skip_ws s = c # r \<Longrightarrow> length r < length s"
  using skip_ws_length [of s] by simp

lemma scan_string_length: "scan_string s = Some (str, rest) \<Longrightarrow> length rest < length s"
proof (induction "length s" arbitrary: s str rule: less_induct)
  case less
  from less.prems obtain c cs where s: "s = c # cs"
    by (cases s) auto
  have IH: "scan_string s' = Some (str', rest) \<Longrightarrow> length s' < length s \<Longrightarrow>
            length rest < length s'" for s' str'
    using less.hyps by blast
  show ?case
  proof (cases "c = CHR 0x22")
    case True
    with less.prems s show ?thesis by simp
  next
    case notquote: False
    show ?thesis
    proof (cases "c = CHR 0x5C")
      case False
      with notquote less.prems s obtain str' where "scan_string cs = Some (str', rest)"
        by (auto split: if_splits option.splits)
      from IH [OF this] s show ?thesis by simp
    next
      case True
      with notquote less.prems s obtain e es where cs: "cs = e # es"
        by (cases cs) auto
      show ?thesis
      proof (cases "e = CHR ''u''")
        case isu: True
        with True notquote less.prems s cs obtain h1 h2 h3 h4 es' where
          es: "es = h1 # h2 # h3 # h4 # es'"
          by (auto split: list.splits)
        with isu True notquote less.prems s cs obtain str' where
          "scan_string es' = Some (str', rest)"
          by (auto split: option.splits)
        from IH [OF this] s cs es show ?thesis by simp
      next
        case notu: False
        with True notquote less.prems s cs obtain str' where
          "scan_string es = Some (str', rest)"
          by (auto split: option.splits)
        from IH [OF this] s cs show ?thesis by simp
      qed
    qed
  qed
qed

lemma scan_number_length: "scan_number s = Some (i, rest) \<Longrightarrow> length rest < length s"
proof -
  assume h: "scan_number s = Some (i, rest)"
  have digits: "scan_digits u = Some (n, rest) \<Longrightarrow> length rest < length u" for u n
    using length_dropWhile_le [of is_digit "tl u"]
    by (cases u) (auto simp: scan_digits_def split: if_splits)
  from h obtain n where
    "scan_digits (if (case s of [] \<Rightarrow> False | c # _ \<Rightarrow> c = CHR ''-'') then tl s else s) = Some (n, rest)"
    by (auto simp: scan_number_def Let_def split: option.splits if_splits)
  from digits [OF this] show ?thesis
    by (cases s) (auto split: if_splits)
qed

lemma parse_consumes_step:
  assumes val: "\<And>s v rest. parse_value n s = Some (v, rest) \<Longrightarrow>
                  length rest < length s \<and> parse_value (length s - length rest) s = Some (v, rest)"
    and items: "\<And>s vs rest. parse_items n s = Some (vs, rest) \<Longrightarrow>
                  length rest < length s \<and> parse_items (length s - length rest) s = Some (vs, rest)"
    and pairs: "\<And>s ps rest. parse_pairs n s = Some (ps, rest) \<Longrightarrow>
                  length rest < length s \<and> parse_pairs (length s - length rest) s = Some (ps, rest)"
  shows "(parse_value (Suc n) s = Some (v, r1) \<longrightarrow>
            length r1 < length s \<and> parse_value (length s - length r1) s = Some (v, r1)) \<and>
         (parse_items (Suc n) s = Some (vs, r2) \<longrightarrow>
            length r2 < length s \<and> parse_items (length s - length r2) s = Some (vs, r2)) \<and>
         (parse_pairs (Suc n) s = Some (ps, r3) \<longrightarrow>
            length r3 < length s \<and> parse_pairs (length s - length r3) s = Some (ps, r3))"
proof -
  have one: "length r1 < length s \<and> parse_value (length s - length r1) s = Some (v, r1)"
    if h: "parse_value (Suc n) s = Some (v, r1)"
  proof -
  from h obtain c cs where s: "s = c # cs"
    by (cases s) auto
  have direct: "length r1 < length s \<and> parse_value (length s - length r1) s = Some (v, r1)"
    if len: "length r1 < length s"
      and same: "\<And>m. parse_value (Suc m) s = parse_value (Suc n) s"
  proof -
    from len obtain m where "length s - length r1 = Suc m"
      by (cases "length s - length r1") auto
    with same [of m] h len show ?thesis by simp
  qed
  show ?thesis
  proof (cases "c = CHR ''{'' \<and> \<not> starts_with ''}'' (skip_ws cs)")
    case True
    with h s obtain ps' where p: "parse_pairs n (skip_ws cs) = Some (ps', r1)"
      and v: "v = JDict (dict_of ps')"
      by (auto split: option.splits)
    from pairs [OF p] have len: "length r1 < length (skip_ws cs)"
      and p': "parse_pairs (length (skip_ws cs) - length r1) (skip_ws cs) = Some (ps', r1)"
      by simp_all
    from len skip_ws_length [of cs] s have k: "Suc (length (skip_ws cs) - length r1) \<le> length s - length r1"
      by simp
    then obtain m where m: "length s - length r1 = Suc m"
      by (cases "length s - length r1") auto
    with k have "length (skip_ws cs) - length r1 \<le> m"
      by simp
    then have "parse_pairs m (skip_ws cs) = Some (ps', r1)"
      using parse_fuel_mono [where n = "length (skip_ws cs) - length r1" and s = "skip_ws cs"
          and ?r3.0 = "(ps', r1)" and k = "m - (length (skip_ws cs) - length r1)"] p'
      by simp
    with True s v m len skip_ws_length [of cs] show ?thesis
      by simp
  next
    case notobj: False
    show ?thesis
    proof (cases "c = CHR ''['' \<and> \<not> starts_with '']'' (skip_ws cs)")
      case True
      with h s obtain vs' where p: "parse_items n (skip_ws cs) = Some (vs', r1)"
        and v: "v = JList vs'"
        by (auto split: option.splits)
      from items [OF p] have len: "length r1 < length (skip_ws cs)"
        and p': "parse_items (length (skip_ws cs) - length r1) (skip_ws cs) = Some (vs', r1)"
        by simp_all
      from len skip_ws_length [of cs] s have k: "Suc (length (skip_ws cs) - length r1) \<le> length s - length r1"
        by simp
      then obtain m where m: "length s - length r1 = Suc m"
        by (cases "length s - length r1") auto
      with k have "length (skip_ws cs) - length r1 \<le> m"
        by simp
      then have "parse_items m (skip_ws cs) = Some (vs', r1)"
        using parse_fuel_mono [where n = "length (skip_ws cs) - length r1" and s = "skip_ws cs"
            and ?r2.0 = "(vs', r1)" and k = "m - (length (skip_ws cs) - length r1)"] p'
        by simp
      with True s v m len skip_ws_length [of cs] show ?thesis
        by simp
    next
      case notarr: False
      have same: "parse_value (Suc m) s = parse_value (Suc n) s" for m
        using notobj notarr s by (cases "c = CHR ''{''"; cases "c = CHR ''[''") simp_all
      have "length r1 < length s"
      proof (cases "c = CHR 0x22")
        case True
        with h s obtain str where "scan_string cs = Some (str, r1)"
          by (auto split: option.splits)
        from scan_string_length [OF this] s show ?thesis by simp
      next
        case notstr: False
        show ?thesis
        proof (cases "c = CHR ''{'' \<or> c = CHR ''[''")
          case True
          with notobj notarr notstr h s have "r1 = tl (skip_ws cs)" "skip_ws cs \<noteq> []"
            by (auto split: if_splits)
          with skip_ws_length [of cs] s show ?thesis
            by (cases "skip_ws cs") auto
        next
          case False
          with notstr h s consider "r1 = drop 4 s" "4 \<le> length s" | "r1 = drop 5 s" "5 \<le> length s"
            | i where "scan_number s = Some (i, r1)"
            using starts_with_length [of "''null''" s] starts_with_length [of "''true''" s]
              starts_with_length [of "''false''" s]
            by (auto split: if_splits option.splits)
          then show ?thesis
          proof cases
            case 3
            then show ?thesis by (rule scan_number_length)
          qed simp_all
        qed
      qed
      then show ?thesis
        using same by (rule direct)
    qed
  qed
  qed
  have two: "length r2 < length s \<and> parse_items (length s - length r2) s = Some (vs, r2)"
    if h: "parse_items (Suc n) s = Some (vs, r2)"
  proof -
  from h obtain v' r where pv: "parse_value n s = Some (v', r)"
    by (cases "parse_value n s") auto
  from val [OF pv] have lr: "length r < length s"
    and pv': "parse_value (length s - length r) s = Some (v', r)"
    by simp_all
  from h pv obtain c r' where sk: "skip_ws r = c # r'"
    by (cases "skip_ws r") auto
  from skip_ws_Cons_length [OF sk] have lr': "length r' < length r" .
  show ?thesis
  proof (cases "c = CHR '']''")
    case True
    with h pv sk have res: "vs = [v']" "r2 = r'"
      by auto
    with lr lr' obtain m where m: "length s - length r2 = Suc m" "length s - length r \<le> m"
      by (cases "length s - length r2") auto
    then have "parse_value m s = Some (v', r)"
      using parse_value_fuel [OF pv'] by blast
    with sk True res m lr lr' show ?thesis
      by simp
  next
    case False
    with h pv sk have comma: "c = CHR '',''"
      by (auto split: if_splits)
    with False h pv sk obtain vs' where
      tail: "parse_items n (skip_ws r') = Some (vs', r2)" and vs: "vs = v' # vs'"
      by (auto split: option.splits)
    from items [OF tail] have lt: "length r2 < length (skip_ws r')"
      and tail': "parse_items (length (skip_ws r') - length r2) (skip_ws r') = Some (vs', r2)"
      by simp_all
    from lt lr lr' skip_ws_length [of r'] obtain m where m: "length s - length r2 = Suc m"
      "length s - length r \<le> m" "length (skip_ws r') - length r2 \<le> m"
      by (cases "length s - length r2") auto
    have "parse_value m s = Some (v', r)"
      using parse_value_fuel [OF pv'] m by blast
    moreover have "parse_items m (skip_ws r') = Some (vs', r2)"
      using parse_fuel_mono [where n = "length (skip_ws r') - length r2" and s = "skip_ws r'"
          and ?r2.0 = "(vs', r2)" and k = "m - (length (skip_ws r') - length r2)"] tail' m(3)
      by simp
    ultimately show ?thesis
      using sk False comma vs m lt lr lr' skip_ws_length [of r'] by simp
  qed
  qed
  have three: "length r3 < length s \<and> parse_pairs (length s - length r3) s = Some (ps, r3)"
    if h: "parse_pairs (Suc n) s = Some (ps, r3)"
  proof -
  from h obtain cs where s: "s = CHR 0x22 # cs"
    by (cases s) (auto split: if_splits)
  from h s obtain key r0 where key: "scan_string cs = Some (key, r0)"
    by (cases "scan_string cs") auto
  from h s key obtain ra where colon: "skip_ws r0 = CHR '':'' # ra"
    by (cases "skip_ws r0") (auto split: if_splits)
  from h s key colon obtain v' rb where pv: "parse_value n (skip_ws ra) = Some (v', rb)"
    by (cases "parse_value n (skip_ws ra)") auto
  from h s key colon pv obtain c rc where sk: "skip_ws rb = c # rc"
    by (cases "skip_ws rb") auto
  from val [OF pv] have lb: "length rb < length (skip_ws ra)"
    and pv': "parse_value (length (skip_ws ra) - length rb) (skip_ws ra) = Some (v', rb)"
    by simp_all
  have l0: "length r0 < length cs"
    using key by (rule scan_string_length)
  have la: "length ra < length r0"
    using colon by (rule skip_ws_Cons_length)
  have lc: "length rc < length rb"
    using sk by (rule skip_ws_Cons_length)
  note lens = s l0 la lb lc skip_ws_length [of ra]
  show ?thesis
  proof (cases "c = CHR ''}''")
    case True
    with h s key colon pv sk have res: "ps = [(key, v')]" "r3 = rc"
      by auto
    with lens obtain m where m: "length s - length r3 = Suc m"
      "length (skip_ws ra) - length rb \<le> m"
      by (cases "length s - length r3") auto
    then have "parse_value m (skip_ws ra) = Some (v', rb)"
      using parse_value_fuel [OF pv'] by blast
    with key colon sk True res m lens show ?thesis
      by simp
  next
    case False
    with h s key colon pv sk have comma: "c = CHR '',''"
      by (auto split: if_splits)
    with False h s key colon pv sk obtain ps' where
      tail: "parse_pairs n (skip_ws rc) = Some (ps', r3)" and ps: "ps = (key, v') # ps'"
      by (auto split: option.splits)
    from pairs [OF tail] have lt: "length r3 < length (skip_ws rc)"
      and tail': "parse_pairs (length (skip_ws rc) - length r3) (skip_ws rc) = Some (ps', r3)"
      by simp_all
    from lt lens skip_ws_length [of rc] obtain m where m: "length s - length r3 = Suc m"
      "length (skip_ws ra) - length rb \<le> m" "length (skip_ws rc) - length r3 \<le> m"
      by (cases "length s - length r3") auto
    have "parse_value m (skip_ws ra) = Some (v', rb)"
      using parse_value_fuel [OF pv'] m by blast
    moreover have "parse_pairs m (skip_ws rc) = Some (ps', r3)"
      using parse_fuel_mono [where n = "length (skip_ws rc) - length r3" and s = "skip_ws rc"
          and ?r3.0 = "(ps', r3)" and k = "m - (length (skip_ws rc) - length r3)"] tail' m(3)
      by simp
    ultimately show ?thesis
      using key colon sk False comma ps m lt lens skip_ws_length [of rc] by simp
  qed
  qed
  from one two three show ?thesis by blast
qed

lemma parse_consumes:
  "(parse_value n s = Some (v, r1) \<longrightarrow>
      length r1 < length s \<and> parse_value (length s - length r1) s = Some (v, r1)) \<and>
   (parse_items n s = Some (vs, r2) \<longrightarrow>
      length r2 < length s \<and> parse_items (length s - length r2) s = Some (vs, r2)) \<and>
   (parse_pairs n s = Some (ps, r3) \<longrightarrow>
      length r3 < length s \<and> parse_pairs (length s - length r3) s = Some (ps, r3))"
proof (induction n arbitrary: s v r1 vs r2 ps r3)
  case 0
  show ?case by simp
next
  case (Suc n)
  show ?case
    by (rule parse_consumes_step) (use Suc in blast)+
qed

text \<open>The counter that \<open>json_loads\<close> starts with is enough: a parse that succeeds with
  any counter succeeds with that one, with the same result.\<close>

lemma json_loads_fuel_enough:
  assumes "parse_value m (skip_ws s) = Some (v, rest)"
  shows "parse_value (Suc (length s)) (skip_ws s) = Some (v, rest)"
proof -
  from parse_consumes [of m "skip_ws s" v rest] assms
  have "parse_value (length (skip_ws s) - length rest) (skip_ws s) = Some (v, rest)"
    by blast
  then show ?thesis
    by (rule parse_value_fuel) (use skip_ws_length [of s] in simp)
qed

subsection \<open>Filename extraction removes duplicates\<close>

lemma unique_from_distinct:
  "distinct (unique_from seen paths) \<and> set (unique_from seen paths) \<inter> seen = {}"
  by (induction paths arbitrary: seen) (auto simp: Let_def)

lemma extract_filenames_distinct: "distinct (extract_filenames s)"
  using unique_from_distinct [of "{}"] by (simp add: extract_filenames_def)

section \<open>Claims\<close>

text \<open>
  C1. The claim: a successful \<open>load_trajectory\<close> returns a non-empty sequence, and a file
  whose parse is an empty list, or a dictionary with an empty list under \<open>trajectory\<close> or
  \<open>steps\<close>, is an error. The loader guards the line-by-line path and the fallback over
  the dictionary's values against an empty list (last two lines below), but not these
  three paths: each of the first three files loads successfully as the empty sequence.
\<close>

theorem load_trajectory_empty_list:
  "load_trajectory json_loads ''[]'' = Inr [] \<and>
   load_trajectory json_loads ''{\"trajectory\": []}'' = Inr [] \<and>
   load_trajectory json_loads ''{\"steps\": []}'' = Inr [] \<and>
   load_trajectory json_loads [] = Inl NoJSONObjects \<and>
   load_trajectory json_loads ''{\"history\": []}'' = Inl UnexpectedFormat"
  by code_simp




text \<open>
  C3. The claim: \<open>_get_tool_name\<close> never raises and gives the empty string when no field
  yields a name, also for an action text of whitespace only. The guard before
  \<open>header.split()[0]\<close> tests the header for emptiness, not for having a token: for the
  step whose action is one space the index is out of range.
\<close>

theorem get_tool_name_blank_action:
  "get_tool_name [(''action'', JStr '' '')] = Inl IndexError"
  by code_simp

text \<open>
  C4. The claim: \<open>_extract_filenames\<close> finds slash-led tokens free of whitespace and
  quotes, and dotted-extension tokens, so that the example text yields a token containing
  \<open>test_repro.py\<close>. With the doubled backslashes of the two raw-string patterns the
  first class excludes the letter \<open>s\<close> instead of whitespace and the second pattern
  needs a backslash instead of a dot: the example text yields the single token
  \<open>/tmp/te\<close>.
\<close>

theorem extract_filenames_scenario:
  "extract_filenames ''str_replace_editor create /tmp/test_repro.py'' = [''/tmp/te'']"
  by code_simp

text \<open>
  C5. A step whose header, taken from its raw action text, is not a creation action is
  rejected by \<open>_is_reproduction_step\<close> whatever keywords its header, its filenames or
  its thought hold, and \<open>locate_reproduction_code\<close> returns a list without its 1-based
  index.
\<close>

theorem non_creation_step_rejected:
  assumes "action_header (raw_action step) = Inr header"
    and "\<not> is_creation_action header"
  shows "is_reproduction_step step = Inr False \<and>
         (\<forall>loads w iid steps i.
            instance_steps loads w iid = Inr steps \<longrightarrow> i < length steps \<longrightarrow> steps ! i = step \<longrightarrow>
            (\<exists>idxs. fst (locate_reproduction_code loads w iid) = Inr idxs \<and>
                    1 + int i \<notin> set idxs))"
proof -
  have rejected: "is_reproduction_step step = Inr False"
    using assms by (simp add: is_reproduction_step_def)
  have "\<exists>idxs. fst (locate_reproduction_code loads w iid) = Inr idxs \<and> 1 + int i \<notin> set idxs"
    if loaded: "instance_steps loads w iid = Inr steps" and i: "i < length steps" "steps ! i = step"
    for loads w iid steps i
  proof -
    obtain idxs where idxs: "fst (locate_reproduction_code loads w iid) = Inr idxs"
      and members: "set idxs = {1 + int k | k. k < length steps \<and> is_reproduction_step (steps ! k) = Inr True}"
      using locate_reproduction_code_result [OF loaded] by blast
    have "1 + int i \<notin> set idxs"
    proof
      assume "1 + int i \<in> set idxs"
      then obtain k where "1 + int i = 1 + int k" "is_reproduction_step (steps ! k) = Inr True"
        using members by auto
      then have "is_reproduction_step (steps ! i) = Inr True" by simp
      then show False using rejected i by simp
    qed
    with idxs show ?thesis by blast
  qed
  with rejected show ?thesis by blast
qed

theorem non_creation_step_rejected_witness:
  "action_header (raw_action (example_steps ! 3)) = Inr ''python test_repro.py'' \<and>
   \<not> is_creation_action ''python test_repro.py'' \<and>
   has_keyword ''python test_repro.py'' FILE_KEYWORDS \<and>
   is_reproduction_step (example_steps ! 3) = Inr False \<and>
   (\<exists>idxs. fst (locate_reproduction_code json_loads example_world ''demo'') = Inr idxs \<and>
           4 \<notin> set idxs)"
proof -
  have h1: "action_header (raw_action (example_steps ! 3)) = Inr ''python test_repro.py''"
    by code_simp
  have h2: "\<not> is_creation_action ''python test_repro.py''"
    by code_simp
  have h3: "has_keyword ''python test_repro.py'' FILE_KEYWORDS"
    by code_simp
  have len: "3 < length example_steps"
    by (simp add: example_steps_def)
  from non_creation_step_rejected [OF h1 h2]
  have "is_reproduction_step (example_steps ! 3) = Inr False"
    and "\<exists>idxs. fst (locate_reproduction_code json_loads example_world ''demo'') = Inr idxs \<and>
           1 + int 3 \<notin> set idxs"
    using example_world_steps len by blast+
  with h1 h2 h3 show ?thesis by simp
qed

text \<open>
  C6. A step whose action text is \<open>str_replace_editor create /tmp/test_repro.py\<close> and
  which has no thought field is a reproduction step, and \<open>locate_reproduction_code\<close>
  returns a list with its 1-based index.
\<close>

theorem scenario_create_test_repro:
  assumes "map_of step ''action'' = Some (JStr ''str_replace_editor create /tmp/test_repro.py'')"
    and "map_of step ''thought'' = None"
  shows "is_reproduction_step step = Inr True \<and>
         (\<forall>loads w iid steps i.
            instance_steps loads w iid = Inr steps \<longrightarrow> i < length steps \<longrightarrow> steps ! i = step \<longrightarrow>
            (\<exists>idxs. fst (locate_reproduction_code loads w iid) = Inr idxs \<and>
                    1 + int i \<in> set idxs))"
proof -
  let ?a = "''str_replace_editor create /tmp/test_repro.py''"
  have raw: "raw_action step = ?a"
    using assms(1) by (rule raw_action_of_action) simp
  have header: "action_header ?a = Inr ?a"
    by code_simp
  have creation: "is_creation_action ?a"
    by code_simp
  have keyword: "has_keyword ?a FILE_KEYWORDS"
    by code_simp
  have accepted: "is_reproduction_step step = Inr True"
    unfolding is_reproduction_step_def raw header using creation keyword
    by (simp add: Let_def)
  have "\<exists>idxs. fst (locate_reproduction_code loads w iid) = Inr idxs \<and> 1 + int i \<in> set idxs"
    if loaded: "instance_steps loads w iid = Inr steps" and i: "i < length steps" "steps ! i = step"
    for loads w iid steps i
  proof -
    obtain idxs where idxs: "fst (locate_reproduction_code loads w iid) = Inr idxs"
      and members: "set idxs = {1 + int k | k. k < length steps \<and> is_reproduction_step (steps ! k) = Inr True}"
      using locate_reproduction_code_result [OF loaded] by blast
    have "1 + int i \<in> set idxs"
      using members i accepted by blast
    with idxs show ?thesis by blast
  qed
  with accepted show ?thesis by blast
qed

theorem scenario_create_test_repro_witness:
  "is_reproduction_step (example_steps ! 0) = Inr True \<and>
   (\<exists>idxs. fst (locate_reproduction_code json_loads example_world ''demo'') = Inr idxs \<and>
           1 \<in> set idxs)"
proof -
  have h1: "map_of (example_steps ! 0) ''action'' =
              Some (JStr ''str_replace_editor create /tmp/test_repro.py'')"
    by (simp add: example_steps_def)
  have h2: "map_of (example_steps ! 0) ''thought'' = None"
    by (simp add: example_steps_def)
  have len: "0 < length example_steps"
    by (simp add: example_steps_def)
  from scenario_create_test_repro [OF h1 h2]
  have "is_reproduction_step (example_steps ! 0) = Inr True"
    and "\<exists>idxs. fst (locate_reproduction_code json_loads example_world ''demo'') = Inr idxs \<and>
           1 + int 0 \<in> set idxs"
    using example_world_steps len by blast+
  then show ?thesis by simp
qed

text \<open>
  C7. A step whose only command source is the action \<open>grep -r TODO src/\<close> is a search
  step and one whose action is \<open>category\<close> is not; \<open>locate_search\<close> returns exactly the
  1-based indices of the steps its test accepts; and the shell-verb pattern matches a
  text exactly when one of the ten verbs occurs in it with no word character directly
  before or after it.
\<close>

theorem shell_verbs_whole_words:
  "(\<forall>step.
      first_set_field [''tool'', ''tool_name'', ''name''] step = None \<longrightarrow>
      first_set_field [''command'', ''args'', ''input''] step = None \<longrightarrow>
      (map_of step ''action'' = Some (JStr ''grep -r TODO src/'') \<longrightarrow>
         is_search_step step = Inr True) \<and>
      (map_of step ''action'' = Some (JStr ''category'') \<longrightarrow>
         is_search_step step = Inr False)) \<and>
   (\<forall>loads w iid steps idxs i.
      instance_steps loads w iid = Inr steps \<longrightarrow>
      fst (locate_search loads w iid) = Inr idxs \<longrightarrow> i < length steps \<longrightarrow>
      (1 + int i \<in> set idxs \<longleftrightarrow> is_search_step (steps ! i) = Inr True)) \<and>
   (\<forall>s. shell_markers_search s \<longleftrightarrow>
      (\<exists>pre v post. s = pre @ v @ post \<and> v \<in> set shell_verbs \<and>
         (pre = [] \<or> \<not> is_word_char (last pre)) \<and>
         (post = [] \<or> \<not> is_word_char (hd post))))"
proof (intro conjI allI impI)
  fix step
  assume none: "first_set_field [''tool'', ''tool_name'', ''name''] step = None"
    "first_set_field [''command'', ''args'', ''input''] step = None"
  {
    assume "map_of step ''action'' = Some (JStr ''grep -r TODO src/'')"
    then have "is_search_step step = is_search_step [(''action'', JStr ''grep -r TODO src/'')]"
      using none by (intro action_only_step) simp_all
    also have "\<dots> = Inr True"
      by code_simp
    finally show "is_search_step step = Inr True" .
  }
  {
    assume "map_of step ''action'' = Some (JStr ''category'')"
    then have "is_search_step step = is_search_step [(''action'', JStr ''category'')]"
      using none by (intro action_only_step) simp_all
    also have "\<dots> = Inr False"
      by code_simp
    finally show "is_search_step step = Inr False" .
  }
next
  fix loads w iid steps idxs i
  assume loaded: "instance_steps loads w iid = Inr steps"
    and result: "fst (locate_search loads w iid) = Inr idxs"
    and i: "i < length steps"
  have "set idxs = {1 + int k | k. k < length steps \<and> is_search_step (steps ! k) = Inr True}"
    using locate_search_result [OF loaded result] .
  with i show "1 + int i \<in> set idxs \<longleftrightarrow> is_search_step (steps ! i) = Inr True"
    by auto
next
  fix s
  show "shell_markers_search s \<longleftrightarrow>
      (\<exists>pre v post. s = pre @ v @ post \<and> v \<in> set shell_verbs \<and>
         (pre = [] \<or> \<not> is_word_char (last pre)) \<and>
         (post = [] \<or> \<not> is_word_char (hd post)))"
    by (rule shell_markers_search_iff)
qed

theorem shell_verbs_whole_words_witness:
  "is_search_step (example_steps ! 1) = Inr True \<and>
   is_search_step (example_steps ! 2) = Inr False \<and>
   fst (locate_search json_loads example_world ''demo'') = Inr [2] \<and>
   (2 \<in> set [2::int] \<longleftrightarrow> is_search_step (example_steps ! 1) = Inr True) \<and>
   (3 \<in> set [2::int] \<longleftrightarrow> is_search_step (example_steps ! 2) = Inr True) \<and>
   shell_markers_search ''cat category'' \<and> \<not> shell_markers_search ''category''"
proof -
  note main = shell_verbs_whole_words
  have res: "fst (locate_search json_loads example_world ''demo'') = Inr [2]"
    by code_simp
  have s1: "is_search_step (example_steps ! 1) = Inr True"
    using main [THEN conjunct1, rule_format, of "example_steps ! 1"]
    by (simp add: example_steps_def)
  have s2: "is_search_step (example_steps ! 2) = Inr False"
    using main [THEN conjunct1, rule_format, of "example_steps ! 2"]
    by (simp add: example_steps_def)
  have i1: "1 + int 1 \<in> set [2::int] \<longleftrightarrow> is_search_step (example_steps ! 1) = Inr True"
    using main [THEN conjunct2, THEN conjunct1, rule_format, OF example_world_steps res, of 1]
    by (simp add: example_steps_def)
  have i2: "1 + int 2 \<in> set [2::int] \<longleftrightarrow> is_search_step (example_steps ! 2) = Inr True"
    using main [THEN conjunct2, THEN conjunct1, rule_format, OF example_world_steps res, of 2]
    by (simp add: example_steps_def)
  have w1: "shell_markers_search ''cat category''"
    by code_simp
  have w2: "\<not> shell_markers_search ''category''"
    by code_simp
  from s1 s2 res i1 i2 w1 w2 show ?thesis by simp
qed



text \<open>
  C9. The result a classifier returns does not depend on whether the log file can be
  written: with any two write permissions the three classifiers return the same value,
  so a failed append changes no result and raises nothing.
\<close>

theorem log_failure_never_surfaces:
  "fst (locate_reproduction_code loads (w\<lparr>writable := f\<rparr>) iid) =
     fst (locate_reproduction_code loads (w\<lparr>writable := g\<rparr>) iid) \<and>
   fst (locate_search loads (w\<lparr>writable := f\<rparr>) iid) =
     fst (locate_search loads (w\<lparr>writable := g\<rparr>) iid) \<and>
   fst (locate_tool_use loads (w\<lparr>writable := f\<rparr>) iid) =
     fst (locate_tool_use loads (w\<lparr>writable := g\<rparr>) iid)"
  by (simp add: locate_reproduction_code_def locate_search_def locate_tool_use_def
        find_instance_dir_def Let_def split: sum.splits option.splits)

theorem log_failure_never_surfaces_witness:
  "\<not> writable tool_example_world LOG_TOOL_FILE \<and>
   fst (locate_tool_use json_loads tool_example_world ''demo'') = Inr [(''bash'', 2)] \<and>
   warnings (snd (locate_tool_use json_loads tool_example_world ''demo'')) =
     [''Failed to write log: OSError''] \<and>
   files (snd (locate_tool_use json_loads tool_example_world ''demo'')) LOG_TOOL_FILE = None \<and>
   fst (locate_tool_use json_loads (tool_example_world\<lparr>writable := \<lambda>p. True\<rparr>) ''demo'') =
     Inr [(''bash'', 2)]"
proof -
  have blocked: "\<not> writable tool_example_world LOG_TOOL_FILE"
    by code_simp
  have warned: "warnings (snd (locate_tool_use json_loads tool_example_world ''demo'')) =
     [''Failed to write log: OSError'']"
    by code_simp
  have unwritten:
    "files (snd (locate_tool_use json_loads tool_example_world ''demo'')) LOG_TOOL_FILE = None"
    by code_simp
  have same: "tool_example_world\<lparr>writable := writable tool_example_world\<rparr> = tool_example_world"
    by simp
  have "fst (locate_tool_use json_loads (tool_example_world\<lparr>writable := \<lambda>p. True\<rparr>) ''demo'') =
        fst (locate_tool_use json_loads tool_example_world ''demo'')"
    using log_failure_never_surfaces [where loads = json_loads and w = tool_example_world
        and f = "\<lambda>p. True" and g = "writable tool_example_world" and iid = "''demo''"]
    unfolding same by blast
  with blocked warned unwritten tool_example_world_result show ?thesis
    by simp
qed

text \<open>
  C10. When \<open>locate_tool_use\<close> returns, every count of its mapping is at least 1 and the
  counts add up to the number of steps whose resolved tool name is non-empty after
  \<open>strip\<close>.
\<close>

theorem locate_tool_use_counts:
  assumes "instance_steps loads w iid = Inr steps"
    and "fst (locate_tool_use loads w iid) = Inr result"
  shows "list_all (\<lambda>(name, n). 1 \<le> n) result \<and>
         sum_list (map snd result) = int (length (filter has_tool_name steps))"
proof -
  obtain counts where counts: "count_tools [] steps = Inr counts"
    and result: "result = sorted_counts counts"
    using locate_tool_use_result [OF assms] by blast
  have d: "distinct (map fst counts)"
    using count_tools_distinct [OF counts] by simp
  have "1 \<le> n" if "(name, n) \<in> set result" for name n
  proof -
    have "distinct (map fst result)"
      using d by (simp add: result sorted_counts_keys)
    with that have "map_of result name = Some n"
      by simp
    then have "map_of counts name = Some n"
      by (simp add: result sorted_counts_map_of)
    then show ?thesis
      using count_tools_map_of [OF counts, of name]
      by (auto simp: get_count_def split: if_splits)
  qed
  then have "list_all (\<lambda>(name, n). 1 \<le> n) result"
    by (auto simp: list_all_iff)
  moreover have "sum_list (map snd result) = int (length (filter has_tool_name steps))"
    using count_tools_sum [OF counts] sorted_counts_sum [OF d] by (simp add: result)
  ultimately show ?thesis by blast
qed

theorem locate_tool_use_counts_witness:
  "fst (locate_tool_use json_loads tool_example_world ''demo'') = Inr [(''bash'', 2)] \<and>
   list_all (\<lambda>(name, n). 1 \<le> n) [(''bash'', 2::int)] \<and>
   sum_list (map snd [(''bash'', 2::int)]) = int (length (filter has_tool_name tool_example_steps)) \<and>
   length (filter has_tool_name tool_example_steps) = 2 \<and> length tool_example_steps = 3"
proof -
  have two: "length (filter has_tool_name tool_example_steps) = 2"
    by code_simp
  have three: "length tool_example_steps = 3"
    by (simp add: tool_example_steps_def)
  from locate_tool_use_counts [OF tool_example_world_steps tool_example_world_result]
    tool_example_world_result two three
  show ?thesis by blast
qed

end
